theory Spec2Isabelle
  imports Complex_Main "HOL-Library.List_Lexorder" "HOL-Library.Char_ord"
begin

section \<open>Brandes-Koepf coordinate assignment (lib/position/bk.js)\<close>

text \<open>
  A shallow embedding of \<^verbatim>\<open>lib/position/bk.js\<close>: type-1 conflict detection,
  vertical alignment and horizontal compaction.

  Conventions of the embedding.
  \<^item> Node ids are strings (the keys of the graph's node table); \<^verbatim>\<open>v > w\<close> on two
    ids is the lexicographic order on character codes, as in JavaScript for ASCII ids.
    Ids that name members of \<^verbatim>\<open>Object.prototype\<close> are outside the model.
  \<^item> JavaScript numbers are idealised as reals (widths, separations, coordinates) and
    as integers (\<^verbatim>\<open>rank\<close>, \<^verbatim>\<open>order\<close>); rounding is not modelled.
    \<^verbatim>\<open>Number.POSITIVE_INFINITY\<close> in the \<^verbatim>\<open>shift\<close> table is \<open>None\<close>.
  \<^item> A property read on \<^verbatim>\<open>undefined\<close> throws; the model returns
    \<open>Inl TypeError\<close> there. Arithmetic on \<^verbatim>\<open>undefined\<close> gives NaN in
    JavaScript; the model stops with \<open>Inl NotANumber\<close>.
  \<^item> The graph object belongs to an external library. It is taken as a record of the node
    ids in enumeration order, the label object of every id, and the predecessor lists.
\<close>

subsection \<open>Data model\<close>

type_synonym node = string

datatype error = TypeError | NotANumber | OutOfFuel

record label =
  rank :: int
  order :: int
  dummy :: bool
  width :: real
  lroot :: node
  lalign :: node
  lx :: "real option"

record graph =
  nodeIds :: "node list"
  labels :: "node \<Rightarrow> label"
  predecessors :: "node \<Rightarrow> node list"

text \<open>\<^verbatim>\<open>g.getNode(v)\<close>: the label object of \<open>v\<close>, \<^verbatim>\<open>undefined\<close> for an id that is not in the graph.\<close>

definition getNode :: "graph \<Rightarrow> node \<Rightarrow> label option" where
  "getNode g v = (if v \<in> set (nodeIds g) then Some (labels g v) else None)"

text \<open>A write through a label object: the graph with the label of \<open>v\<close> replaced.\<close>

definition setNode :: "graph \<Rightarrow> node \<Rightarrow> label \<Rightarrow> graph" where
  "setNode g v l = g\<lparr>labels := (labels g)(v := l)\<rparr>"

text \<open>\<^verbatim>\<open>g.nodes()\<close>: the pairs of id and label object, in enumeration order.\<close>

definition nodes :: "graph \<Rightarrow> (node \<times> label) list" where
  "nodes g = map (\<lambda>v. (v, labels g v)) (nodeIds g)"

type_synonym layering = "node list list"

subsection \<open>The conflict set\<close>

text \<open>
  The conflict object maps an id to an object whose own keys are the ids in conflict with
  it (each stored with the value \<^verbatim>\<open>true\<close>): a partial map from ids to sets of ids.
\<close>

type_synonym conflicts = "node \<rightharpoonup> node set"

definition addType1Conflict :: "conflicts \<Rightarrow> node \<Rightarrow> node \<Rightarrow> conflicts" where
  "addType1Conflict conflicts v w =
     (let (v', w') = (if v > w then (w, v) else (v, w)) in
      case conflicts v' of
        None \<Rightarrow> conflicts(v' \<mapsto> {w'})
      | Some conflictsV \<Rightarrow> conflicts(v' \<mapsto> insert w' conflictsV))"

definition hasType1Conflict :: "conflicts \<Rightarrow> node \<Rightarrow> node \<Rightarrow> bool" where
  "hasType1Conflict conflicts v w =
     (let (v', w') = (if v > w then (w, v) else (v, w)) in
      case conflicts v' of
        None \<Rightarrow> False
      | Some conflictsV \<Rightarrow> w' \<in> conflictsV)"

text \<open>The conflict set left by a sequence of \<^verbatim>\<open>addType1Conflict\<close> calls on a fresh object.\<close>

definition conflictsFrom :: "(node \<times> node) list \<Rightarrow> conflicts" where
  "conflictsFrom calls = foldl (\<lambda>c (v, w). addType1Conflict c v w) Map.empty calls"

subsection \<open>Iteration\<close>

text \<open>
  \<^verbatim>\<open>_.each(xs, f)\<close> where the callback updates the state it closes over: the state is
  passed through the calls in list order, and an exception in a call ends the loop.
\<close>

fun each :: "('a \<Rightarrow> 's \<Rightarrow> error + 's) \<Rightarrow> 'a list \<Rightarrow> 's \<Rightarrow> error + 's" where
  "each f [] s = Inr s"
| "each f (a # as) s = (case f a s of Inl e \<Rightarrow> Inl e | Inr s' \<Rightarrow> each f as s')"

subsection \<open>Type-1 conflict detection\<close>

text \<open>
  \<^verbatim>\<open>_.find(g.predecessors(v), function(u) { return g.getNode(u).dummy; })\<close>:
  the first dummy predecessor, \<^verbatim>\<open>undefined\<close> (\<open>None\<close>) when there is none.
\<close>

fun findDummy :: "graph \<Rightarrow> node list \<Rightarrow> error + node option" where
  "findDummy g [] = Inr None"
| "findDummy g (u # us) =
     (case getNode g u of
        None \<Rightarrow> Inl TypeError
      | Some uLabel \<Rightarrow> if dummy uLabel then Inr (Some u) else findDummy g us)"

definition findOtherInnerSegmentNode :: "graph \<Rightarrow> node \<Rightarrow> error + node option" where
  "findOtherInnerSegmentNode g v =
     (case getNode g v of
        None \<Rightarrow> Inl TypeError
      | Some vLabel \<Rightarrow> if dummy vLabel then findDummy g (predecessors g v) else Inr None)"

text \<open>
  The objects that \<^verbatim>\<open>collectType1Conflicts\<close> and its closures can reach: the graph
  and the conflict object under construction.
\<close>

record collect_state =
  the_graph :: graph
  the_conflicts :: conflicts

text \<open>The test \<^verbatim>\<open>w\<close> on the result of \<^verbatim>\<open>findOtherInnerSegmentNode\<close>: an id is truthy unless it is the empty string.\<close>

definition truthy :: "node option \<Rightarrow> bool" where
  "truthy w = (case w of None \<Rightarrow> False | Some w' \<Rightarrow> w' \<noteq> [])"

text \<open>\<^verbatim>\<open>k1 = w ? g.getNode(w).order : prevLayerLength\<close>\<close>

definition windowEnd :: "graph \<Rightarrow> node option \<Rightarrow> nat \<Rightarrow> error + int" where
  "windowEnd g w prevLayerLength =
     (if truthy w then
        (case getNode g (the w) of None \<Rightarrow> Inl TypeError | Some wLabel \<Rightarrow> Inr (order wLabel))
      else Inr (int prevLayerLength))"

text \<open>The innermost callback of \<^verbatim>\<open>visitLayer\<close>, run for a predecessor \<open>u\<close> of \<open>scanNode\<close>.\<close>

definition scanPredecessor :: "int \<Rightarrow> int \<Rightarrow> node \<Rightarrow> node \<Rightarrow> collect_state \<Rightarrow> error + collect_state" where
  "scanPredecessor k0 k1 scanNode u st =
     (case getNode (the_graph st) u of
        None \<Rightarrow> Inl TypeError
      | Some uLabel \<Rightarrow>
          let uPos = order uLabel in
          if uPos < k0 \<or> k1 < uPos then
            (if dummy uLabel then
               (case getNode (the_graph st) scanNode of
                  None \<Rightarrow> Inl TypeError
                | Some scanLabel \<Rightarrow>
                    if dummy scanLabel then Inr st
                    else Inr (st\<lparr>the_conflicts := addType1Conflict (the_conflicts st) u scanNode\<rparr>))
             else Inr (st\<lparr>the_conflicts := addType1Conflict (the_conflicts st) u scanNode\<rparr>))
          else Inr st)"

definition scanNodePredecessors :: "int \<Rightarrow> int \<Rightarrow> node \<Rightarrow> collect_state \<Rightarrow> error + collect_state" where
  "scanNodePredecessors k0 k1 scanNode st =
     each (scanPredecessor k0 k1 scanNode) (predecessors (the_graph st) scanNode) st"

text \<open>\<^verbatim>\<open>layer.slice(start, end)\<close> for indices that are not negative.\<close>

definition slice :: "'a list \<Rightarrow> nat \<Rightarrow> nat \<Rightarrow> 'a list" where
  "slice xs start end = take (end - start) (drop start xs)"

text \<open>The re-scan of \<^verbatim>\<open>layer.slice(scanPos, i + 1)\<close> against the window \<open>[k0, k1]\<close>.\<close>

definition rescan :: "int \<Rightarrow> int \<Rightarrow> node list \<Rightarrow> collect_state \<Rightarrow> error + collect_state" where
  "rescan k0 k1 scanNodes st = each (scanNodePredecessors k0 k1) scanNodes st"

text \<open>
  The locals \<^verbatim>\<open>k0\<close> and \<^verbatim>\<open>scanPos\<close> of \<^verbatim>\<open>visitLayer\<close> (\<open>cur_k0\<close>,
  \<open>cur_scanPos\<close>), with the reachable objects.
\<close>

record visit_state =
  cur_k0 :: int
  cur_scanPos :: nat
  reach :: collect_state

text \<open>The callback of the outer \<^verbatim>\<open>_.each(layer, function(v, i) ...)\<close>.\<close>

definition visitNode :: "node list \<Rightarrow> node list \<Rightarrow> nat \<times> node \<Rightarrow> visit_state \<Rightarrow> error + visit_state" where
  "visitNode prevLayer layer iv vs =
     (let (i, v) = iv in
      case findOtherInnerSegmentNode (the_graph (reach vs)) v of
        Inl e \<Rightarrow> Inl e
      | Inr w \<Rightarrow>
          (case windowEnd (the_graph (reach vs)) w (length prevLayer) of
             Inl e \<Rightarrow> Inl e
           | Inr k1 \<Rightarrow>
               if truthy w \<or> v = last layer then
                 (case rescan (cur_k0 vs) k1 (slice layer (cur_scanPos vs) (i + 1)) (reach vs) of
                    Inl e \<Rightarrow> Inl e
                  | Inr st' \<Rightarrow> Inr \<lparr>cur_k0 = k1, cur_scanPos = i + 1, reach = st'\<rparr>)
               else Inr vs))"

definition visitLayer :: "node list \<Rightarrow> node list \<Rightarrow> collect_state \<Rightarrow> error + collect_state" where
  "visitLayer prevLayer layer st =
     (case each (visitNode prevLayer layer) (enumerate 0 layer) \<lparr>cur_k0 = 0, cur_scanPos = 0, reach = st\<rparr> of
        Inl e \<Rightarrow> Inl e
      | Inr vs \<Rightarrow> Inr (reach vs))"

text \<open>
  \<^verbatim>\<open>_.reduce(layering, visitLayer)\<close> without an initial accumulator: the first layer is
  the first accumulator, and \<^verbatim>\<open>visitLayer\<close> returns its second argument.
\<close>

fun visitLayers :: "node list \<Rightarrow> layering \<Rightarrow> collect_state \<Rightarrow> error + collect_state" where
  "visitLayers prevLayer [] st = Inr st"
| "visitLayers prevLayer (layer # rest) st =
     (case visitLayer prevLayer layer st of
        Inl e \<Rightarrow> Inl e
      | Inr st' \<Rightarrow> visitLayers layer rest st')"

text \<open>The run of \<^verbatim>\<open>collectType1Conflicts\<close>: the reachable objects when it returns.\<close>

definition collectType1Conflicts_run :: "graph \<Rightarrow> layering \<Rightarrow> error + collect_state" where
  "collectType1Conflicts_run g layering =
     (let st = \<lparr>the_graph = g, the_conflicts = Map.empty\<rparr> in
      case layering of
        [] \<Rightarrow> Inr st
      | firstLayer # rest \<Rightarrow> visitLayers firstLayer rest st)"

text \<open>The value \<^verbatim>\<open>collectType1Conflicts\<close> returns.\<close>

definition collectType1Conflicts :: "graph \<Rightarrow> layering \<Rightarrow> error + conflicts" where
  "collectType1Conflicts g layering =
     (case collectType1Conflicts_run g layering of
        Inl e \<Rightarrow> Inl e
      | Inr st \<Rightarrow> Inr (the_conflicts st))"

subsection \<open>Vertical alignment\<close>

text \<open>
  The first loop of \<^verbatim>\<open>verticalAlignment\<close>: every node of \<^verbatim>\<open>g.nodes()\<close> becomes a
  block of its own.
\<close>

definition initBlock :: "node \<Rightarrow> graph \<Rightarrow> graph" where
  "initBlock v g = setNode g v ((labels g v)\<lparr>lroot := v, lalign := v\<rparr>)"

definition initBlocks :: "graph \<Rightarrow> graph" where
  "initBlocks g = fold initBlock (nodeIds g) g"

text \<open>
  The state of the loop over one layer: the graph and the local \<^verbatim>\<open>prevIdx\<close>
  (\<open>cur_prevIdx\<close>).
\<close>

record align_state =
  agraph :: graph
  cur_prevIdx :: int

text \<open>
  The body of the \<^verbatim>\<open>for\<close> loop for the candidate \<open>w\<close>. \<^verbatim>\<open>vLab\<close> is read before the
  loop and \<^verbatim>\<open>vLab.align\<close> is the first operand of the test, so a missing \<open>v\<close> throws
  first; \<^verbatim>\<open>wLab.order\<close> is read only when \<^verbatim>\<open>vLab.align === v\<close>. The two label
  objects are the same object when \<open>w = v\<close>.
\<close>

definition alignCandidate :: "conflicts \<Rightarrow> node \<Rightarrow> node \<Rightarrow> align_state \<Rightarrow> error + align_state" where
  "alignCandidate conflicts v w st =
     (case getNode (agraph st) v of
        None \<Rightarrow> Inl TypeError
      | Some vLab \<Rightarrow>
          if lalign vLab = v then
            (case getNode (agraph st) w of
               None \<Rightarrow> Inl TypeError
             | Some wLab \<Rightarrow>
                 if cur_prevIdx st < order wLab \<and> \<not> hasType1Conflict conflicts v w then
                   (let g1 = setNode (agraph st) w (wLab\<lparr>lalign := v\<rparr>);
                        wRoot = lroot (labels g1 w);
                        g2 = setNode g1 v ((labels g1 v)\<lparr>lroot := wRoot, lalign := wRoot\<rparr>)
                    in Inr \<lparr>agraph = g2, cur_prevIdx = order wLab\<rparr>)
                 else Inr st)
          else Inr st)"

text \<open>
  The candidates \<^verbatim>\<open>ws[i]\<close> for \<^verbatim>\<open>i\<close> from \<^verbatim>\<open>Math.floor(mp)\<close> to
  \<^verbatim>\<open>Math.ceil(mp)\<close>, \<^verbatim>\<open>mp = (ws.length - 1) / 2\<close>, for a list that is not empty.
\<close>

definition medians :: "node list \<Rightarrow> node list" where
  "medians ws = map (\<lambda>i. ws ! i) [(length ws - 1) div 2 ..< Suc (length ws div 2)]"

definition alignNode :: "conflicts \<Rightarrow> (node \<Rightarrow> node list) \<Rightarrow> node \<Rightarrow> align_state \<Rightarrow> error + align_state" where
  "alignNode conflicts neighborFn v st =
     (let ws = neighborFn v in
      if ws \<noteq> [] then each (alignCandidate conflicts v) (medians ws) st
      else Inr st)"

definition alignLayer :: "conflicts \<Rightarrow> (node \<Rightarrow> node list) \<Rightarrow> node list \<Rightarrow> graph \<Rightarrow> error + graph" where
  "alignLayer conflicts neighborFn layer g =
     (case each (alignNode conflicts neighborFn) layer \<lparr>agraph = g, cur_prevIdx = - 1\<rparr> of
        Inl e \<Rightarrow> Inl e
      | Inr st \<Rightarrow> Inr (agraph st))"

definition verticalAlignment ::
  "graph \<Rightarrow> layering \<Rightarrow> conflicts \<Rightarrow> (node \<Rightarrow> node list) \<Rightarrow> error + graph" where
  "verticalAlignment g layering conflicts neighborFn =
     each (alignLayer conflicts neighborFn) layering (initBlocks g)"

subsection \<open>Horizontal compaction\<close>

text \<open>
  The options object: the two keys the module reads, each present or not, and whatever
  other keys the caller has put there (the record's extension).
\<close>

record options =
  nodesep :: "real option"
  edgesep :: "real option"

text \<open>\<^verbatim>\<open>_.defaults(options, { nodesep: 50, edgesep: 10 })\<close>\<close>

definition defaults :: "'a options_scheme \<Rightarrow> 'a options_scheme" where
  "defaults options =
     options\<lparr>nodesep := (case nodesep options of None \<Rightarrow> Some 50 | Some n \<Rightarrow> Some n),
             edgesep := (case edgesep options of None \<Rightarrow> Some 10 | Some e \<Rightarrow> Some e)\<rparr>"

text \<open>The accessors at the end of the file.\<close>

definition xcoord :: "graph \<Rightarrow> node \<Rightarrow> error + real option" where
  "xcoord g v = (case getNode g v of None \<Rightarrow> Inl TypeError | Some l \<Rightarrow> Inr (lx l))"

definition pos :: "graph \<Rightarrow> node \<Rightarrow> error + int" where
  "pos g v = (case getNode g v of None \<Rightarrow> Inl TypeError | Some l \<Rightarrow> Inr (order l))"

definition root_node :: "graph \<Rightarrow> node \<Rightarrow> error + node" where
  "root_node g v = (case getNode g v of None \<Rightarrow> Inl TypeError | Some l \<Rightarrow> Inr (lroot l))"

definition align :: "graph \<Rightarrow> node \<Rightarrow> error + node" where
  "align g v = (case getNode g v of None \<Rightarrow> Inl TypeError | Some l \<Rightarrow> Inr (lalign l))"

text \<open>
  \<^verbatim>\<open>layering[vLabel.rank][vLabel.order - 1]\<close>: an index outside the layer gives
  \<^verbatim>\<open>undefined\<close> (\<open>None\<close>); a rank outside the layering gives an index into
  \<^verbatim>\<open>undefined\<close>, which throws.
\<close>

definition pred :: "graph \<Rightarrow> layering \<Rightarrow> node \<Rightarrow> error + node option" where
  "pred g layering v =
     (case getNode g v of
        None \<Rightarrow> Inl TypeError
      | Some vLabel \<Rightarrow>
          if 0 \<le> rank vLabel \<and> nat (rank vLabel) < length layering then
            (let layer = layering ! nat (rank vLabel) in
             if 0 \<le> order vLabel - 1 \<and> nat (order vLabel - 1) < length layer
             then Inr (Some (layer ! nat (order vLabel - 1)))
             else Inr None)
          else Inl TypeError)"

text \<open>
  \<^verbatim>\<open>sep\<close>. After \<^verbatim>\<open>_.defaults\<close> both keys are numbers; on an options object
  that lacks one, \<^verbatim>\<open>undefined / 2\<close> is NaN.
\<close>

definition sep :: "graph \<Rightarrow> 'a options_scheme \<Rightarrow> node \<Rightarrow> node \<Rightarrow> error + real" where
  "sep g options v u =
     (case getNode g v of
        None \<Rightarrow> Inl TypeError
      | Some vLabel \<Rightarrow>
          (case getNode g u of
             None \<Rightarrow> Inl TypeError
           | Some uLabel \<Rightarrow>
               (case (nodesep options, edgesep options) of
                  (Some ns, Some es) \<Rightarrow>
                    (let nodeSep = ns / 2; edgeSep = es / 2 in
                     Inr (width uLabel / 2 +
                          (if dummy uLabel then edgeSep else nodeSep) +
                          (if dummy vLabel then edgeSep else nodeSep) +
                          width vLabel / 2))
                | _ \<Rightarrow> Inl NotANumber)))"

text \<open>
  The objects \<^verbatim>\<open>placeBlock\<close> works on: the graph and the tables \<^verbatim>\<open>shift\<close> and
  \<^verbatim>\<open>sink\<close>. The tables are read only at ids of the graph, where
  \<^verbatim>\<open>horizontalCompaction\<close> has initialised them, so they are total functions here.
\<close>

record compact_state =
  cgraph :: graph
  shift :: "node \<Rightarrow> real option"
  sink :: "node \<Rightarrow> node"

text \<open>
  The part of the loop body of \<^verbatim>\<open>placeBlock\<close> before the recursive call: the
  block \<^verbatim>\<open>u = root(g, pred(g, layering, w))\<close> to place first, when \<^verbatim>\<open>pos(g, w) > 0\<close>.
  The label lookup of an \<^verbatim>\<open>undefined\<close> id gives \<^verbatim>\<open>undefined\<close>, whose
  \<^verbatim>\<open>root\<close> throws.
\<close>

definition leftBlock :: "graph \<Rightarrow> layering \<Rightarrow> node \<Rightarrow> error + node option" where
  "leftBlock g layering w =
     (case pos g w of
        Inl e \<Rightarrow> Inl e
      | Inr p \<Rightarrow>
          if p > 0 then
            (case pred g layering w of
               Inl e \<Rightarrow> Inl e
             | Inr None \<Rightarrow> Inl TypeError
             | Inr (Some pw) \<Rightarrow>
                 (case root_node g pw of Inl e \<Rightarrow> Inl e | Inr u \<Rightarrow> Inr (Some u)))
          else Inr None)"

text \<open>
  The part of the loop body after the recursive call: the sink of \<open>v\<close>, the separation,
  and either the bound on the shift of the other class or the new \<^verbatim>\<open>vLabel.x\<close>.
\<close>

definition constrain :: "'a options_scheme \<Rightarrow> node \<Rightarrow> node \<Rightarrow> node \<Rightarrow> compact_state \<Rightarrow> error + compact_state" where
  "constrain options v w u st =
     (let st1 = (if sink st v = v then st\<lparr>sink := (sink st)(v := sink st u)\<rparr> else st) in
      case sep (cgraph st1) options w u of
        Inl e \<Rightarrow> Inl e
      | Inr delta \<Rightarrow>
          (case (lx (labels (cgraph st1) v), xcoord (cgraph st1) u) of
             (_, Inl e) \<Rightarrow> Inl e
           | (Some xv, Inr (Some xu)) \<Rightarrow>
               if sink st1 v \<noteq> sink st1 u then
                 Inr (st1\<lparr>shift := (shift st1)(sink st1 u :=
                        (case shift st1 (sink st1 u) of
                           None \<Rightarrow> Some (xv - xu - delta)
                         | Some s \<Rightarrow> Some (min s (xv - xu - delta))))\<rparr>)
               else
                 Inr (st1\<lparr>cgraph := setNode (cgraph st1) v
                        ((labels (cgraph st1) v)\<lparr>lx := Some (max xv (xu + delta))\<rparr>)\<rparr>)
           | _ \<Rightarrow> Inl NotANumber))"

text \<open>
  \<^verbatim>\<open>placeBlock\<close> and its \<^verbatim>\<open>do ... while\<close> loop (\<open>placeLoop\<close>, at the member \<open>w\<close> of
  the block of \<open>v\<close>). The recursion of the source need not end on every input, so the
  model counts the calls and the iterations that remain; \<open>Inl OutOfFuel\<close> says that the
  count did not suffice.
\<close>

fun placeBlock :: "nat \<Rightarrow> layering \<Rightarrow> 'a options_scheme \<Rightarrow> node \<Rightarrow> compact_state \<Rightarrow> error + compact_state"
and placeLoop :: "nat \<Rightarrow> layering \<Rightarrow> 'a options_scheme \<Rightarrow> node \<Rightarrow> node \<Rightarrow> compact_state \<Rightarrow> error + compact_state"
where
  "placeBlock 0 layering options v st = Inl OutOfFuel"
| "placeBlock (Suc n) layering options v st =
     (case getNode (cgraph st) v of
        None \<Rightarrow> Inl TypeError
      | Some vLabel \<Rightarrow>
          if lx vLabel \<noteq> None then Inr st
          else placeLoop n layering options v v
                 (st\<lparr>cgraph := setNode (cgraph st) v (vLabel\<lparr>lx := Some 0\<rparr>)\<rparr>))"
| "placeLoop 0 layering options v w st = Inl OutOfFuel"
| "placeLoop (Suc n) layering options v w st =
     (case (case leftBlock (cgraph st) layering w of
              Inl e \<Rightarrow> Inl e
            | Inr None \<Rightarrow> Inr st
            | Inr (Some u) \<Rightarrow>
                (case placeBlock n layering options u st of
                   Inl e \<Rightarrow> Inl e
                 | Inr st1 \<Rightarrow> constrain options v w u st1)) of
        Inl e \<Rightarrow> Inl e
      | Inr st2 \<Rightarrow>
          (case align (cgraph st2) w of
             Inl e \<Rightarrow> Inl e
           | Inr w' \<Rightarrow> if w' \<noteq> v then placeLoop n layering options v w' st2 else Inr st2))"

text \<open>The second loop of \<^verbatim>\<open>horizontalCompaction\<close>: the roots are placed.\<close>

definition placeRoot :: "nat \<Rightarrow> layering \<Rightarrow> 'a options_scheme \<Rightarrow> node \<Rightarrow> compact_state \<Rightarrow> error + compact_state" where
  "placeRoot fuel layering options v st =
     (if lroot (labels (cgraph st) v) = v then placeBlock fuel layering options v st
      else Inr st)"

text \<open>
  The last loop: the coordinate of the root is copied to the node, and the shift of the
  class is added when it is finite. Adding to \<^verbatim>\<open>undefined\<close> gives NaN.
\<close>

definition applyShift :: "node \<Rightarrow> compact_state \<Rightarrow> error + compact_state" where
  "applyShift v st =
     (case getNode (cgraph st) v of
        None \<Rightarrow> Inl TypeError
      | Some label \<Rightarrow>
          (let root = lroot label in
           case xcoord (cgraph st) root of
             Inl e \<Rightarrow> Inl e
           | Inr xr \<Rightarrow>
               (case shift st (sink st root) of
                  None \<Rightarrow> Inr (st\<lparr>cgraph := setNode (cgraph st) v (label\<lparr>lx := xr\<rparr>)\<rparr>)
                | Some s \<Rightarrow>
                    (case xr of
                       None \<Rightarrow> Inl NotANumber
                     | Some xr' \<Rightarrow>
                         Inr (st\<lparr>cgraph := setNode (cgraph st) v (label\<lparr>lx := Some (xr' + s)\<rparr>)\<rparr>)))))"

text \<open>
  \<^verbatim>\<open>horizontalCompaction\<close>. The argument \<open>options\<close> is \<open>None\<close> when the caller passes
  none. The result is the caller's options object after the call (which
  \<^verbatim>\<open>_.defaults\<close> has written to before anything can throw) and the graph, or the
  error. \<open>fuel\<close> bounds every top-level \<^verbatim>\<open>placeBlock\<close> call.
\<close>

definition compact :: "nat \<Rightarrow> graph \<Rightarrow> layering \<Rightarrow> 'a options_scheme \<Rightarrow> error + graph" where
  "compact fuel g layering options =
     (let st = \<lparr>cgraph = g, shift = (\<lambda>v. None), sink = (\<lambda>v. v)\<rparr> in
      case each (placeRoot fuel layering options) (nodeIds g) st of
        Inl e \<Rightarrow> Inl e
      | Inr st1 \<Rightarrow>
          (case each applyShift (nodeIds g) st1 of
             Inl e \<Rightarrow> Inl e
           | Inr st2 \<Rightarrow> Inr (cgraph st2)))"

definition horizontalCompaction ::
  "nat \<Rightarrow> graph \<Rightarrow> layering \<Rightarrow> 'a options_scheme option \<Rightarrow> 'a options_scheme option \<times> (error + graph)" where
  "horizontalCompaction fuel g layering options =
     (case options of
        None \<Rightarrow> (None, compact fuel g layering (defaults \<lparr>nodesep = None, edgesep = None\<rparr>))
      | Some opts \<Rightarrow> (Some (defaults opts), compact fuel g layering (defaults opts)))"

subsection \<open>Predicates used in the statements\<close>

text \<open>A conflict set that holds no pair of two dummy nodes of the graph.\<close>

definition noInnerPair :: "graph \<Rightarrow> conflicts \<Rightarrow> bool" where
  "noInnerPair g c \<longleftrightarrow>
     (\<forall>a b. hasType1Conflict c a b \<longrightarrow>
        \<not> (\<exists>la lb. getNode g a = Some la \<and> getNode g b = Some lb \<and> dummy la \<and> dummy lb))"

text \<open>A property of the reachable objects that every run of the innermost callback keeps.\<close>

definition scanInvariant :: "(collect_state \<Rightarrow> bool) \<Rightarrow> bool" where
  "scanInvariant P \<longleftrightarrow>
     (\<forall>k0 k1 s u t t'. P t \<longrightarrow> scanPredecessor k0 k1 s u t = Inr t' \<longrightarrow> P t')"

text \<open>
  The reading of the boundary case in the specification: the scan runs over the nodes
  before the last one, and at the last node the pending nodes are re-scanned with
  \<^verbatim>\<open>prevLayer.length\<close> as \<open>k1\<close>.
\<close>

definition lastNodeRescan_spec :: "node list \<Rightarrow> node list \<Rightarrow> collect_state \<Rightarrow> error + collect_state" where
  "lastNodeRescan_spec prevLayer layer st =
     (case each (visitNode prevLayer layer) (enumerate 0 (butlast layer))
             \<lparr>cur_k0 = 0, cur_scanPos = 0, reach = st\<rparr> of
        Inl e \<Rightarrow> Inl e
      | Inr vs \<Rightarrow>
          rescan (cur_k0 vs) (int (length prevLayer))
            (slice layer (cur_scanPos vs) (length layer)) (reach vs))"

text \<open>
  The same with the window end the code computes at the last node: \<open>k1\<close> is a parameter.
\<close>

definition lastNodeRescan :: "int \<Rightarrow> node list \<Rightarrow> node list \<Rightarrow> collect_state \<Rightarrow> error + collect_state" where
  "lastNodeRescan k1 prevLayer layer st =
     (case each (visitNode prevLayer layer) (enumerate 0 (butlast layer))
             \<lparr>cur_k0 = 0, cur_scanPos = 0, reach = st\<rparr> of
        Inl e \<Rightarrow> Inl e
      | Inr vs \<Rightarrow>
          rescan (cur_k0 vs) k1 (slice layer (cur_scanPos vs) (length layer)) (reach vs))"

text \<open>The block structure of a graph: the two label fields as functions on ids.\<close>

definition rootOf :: "graph \<Rightarrow> node \<Rightarrow> node" where
  "rootOf g v = lroot (labels g v)"

definition alignOf :: "graph \<Rightarrow> node \<Rightarrow> node" where
  "alignOf g v = lalign (labels g v)"

text \<open>The block of \<open>v\<close>: the nodes of the graph with the root of \<open>v\<close>.\<close>

definition block :: "graph \<Rightarrow> node \<Rightarrow> node set" where
  "block g v = {u \<in> set (nodeIds g). rootOf g u = rootOf g v}"

text \<open>
  Every link \<open>align(n) = v\<close> of the graph that is neither a self-link nor the closing link
  to the root of \<open>n\<close> joins a pair without a recorded conflict.
\<close>

definition conflictFree :: "conflicts \<Rightarrow> graph \<Rightarrow> bool" where
  "conflictFree c g \<longleftrightarrow>
     (\<forall>n \<in> set (nodeIds g).
        alignOf g n = n \<or> rootOf g n = alignOf g n \<or> \<not> hasType1Conflict c (alignOf g n) n)"

text \<open>
  A graph that differs from another at most in the \<^verbatim>\<open>x\<close> fields of its nodes.
\<close>

definition onlyX :: "graph \<Rightarrow> graph \<Rightarrow> bool" where
  "onlyX g g' \<longleftrightarrow>
     nodeIds g' = nodeIds g \<and> predecessors g' = predecessors g \<and>
     (\<forall>v. \<exists>xv. labels g' v = (labels g v)\<lparr>lx := xv\<rparr>) \<and>
     (\<forall>v. v \<notin> set (nodeIds g) \<longrightarrow> labels g' v = labels g v)"

text \<open>Clearing the \<^verbatim>\<open>x\<close> field of every node of the graph, as a caller would between two runs.\<close>

definition clearX :: "graph \<Rightarrow> graph" where
  "clearX g = fold (\<lambda>v h. setNode h v ((labels h v)\<lparr>lx := None\<rparr>)) (nodeIds g) g"

text \<open>
  A chain: the members of one block in the order of their \<^verbatim>\<open>align\<close> links, from the
  root to the last member, whose link closes the cycle.
\<close>

definition chainOk :: "graph \<Rightarrow> node list \<Rightarrow> bool" where
  "chainOk g c \<longleftrightarrow>
     c \<noteq> [] \<and> distinct c \<and> (\<forall>x\<in>set c. rootOf g x = hd c) \<and>
     (\<forall>j. Suc j < length c \<longrightarrow> alignOf g (c ! j) = c ! Suc j) \<and>
     alignOf g (last c) = hd c"

text \<open>A set of disjoint chains that covers the nodes of the graph.\<close>

definition blocksOk :: "graph \<Rightarrow> node list set \<Rightarrow> bool" where
  "blocksOk g C \<longleftrightarrow>
     (\<forall>c\<in>C. chainOk g c) \<and> (\<forall>c\<in>C. \<forall>d\<in>C. c \<noteq> d \<longrightarrow> set c \<inter> set d = {}) \<and>
     (\<Union>c\<in>C. set c) = set (nodeIds g)"

text \<open>A node whose \<^verbatim>\<open>align\<close> link closes the cycle of its block.\<close>

definition tailNode :: "graph \<Rightarrow> node \<Rightarrow> bool" where
  "tailNode g n \<longleftrightarrow> alignOf g n = rootOf g n"

text \<open>
  The neighbours of every node of a layer lie in the layer before it (in the set \<open>P\<close> for
  the first layer of the list).
\<close>

fun neighborsIn :: "(node \<Rightarrow> node list) \<Rightarrow> node set \<Rightarrow> layering \<Rightarrow> bool" where
  "neighborsIn neighborFn P [] = True"
| "neighborsIn neighborFn P (layer # rest) =
     ((\<forall>v\<in>set layer. set (neighborFn v) \<subseteq> P) \<and> neighborsIn neighborFn (set layer) rest)"

text \<open>
  The invariant of the loop over one layer: \<open>P\<close> is the layer before it, \<open>R\<close> the nodes of
  the layer and of the layers after it.
\<close>

definition layerInv :: "node list \<Rightarrow> node set \<Rightarrow> node set \<Rightarrow> align_state \<Rightarrow> bool" where
  "layerInv ids P R st \<longleftrightarrow>
     nodeIds (agraph st) = ids \<and> (\<exists>C. blocksOk (agraph st) C) \<and>
     (\<forall>n\<in>R. tailNode (agraph st) n) \<and>
     (\<forall>n\<in>P. tailNode (agraph st) n \<or> order (labels (agraph st) n) \<le> cur_prevIdx st)"

subsection \<open>Example inputs\<close>

definition mkLabel :: "int \<Rightarrow> int \<Rightarrow> bool \<Rightarrow> real \<Rightarrow> label" where
  "mkLabel r ord d w =
     \<lparr>rank = r, order = ord, dummy = d, width = w, lroot = [], lalign = [], lx = None\<rparr>"

definition mkGraph :: "(node \<times> label) list \<Rightarrow> (node \<times> node) list \<Rightarrow> graph" where
  "mkGraph ns es =
     \<lparr>nodeIds = map fst ns,
      labels = (\<lambda>v. case map_of ns v of Some l \<Rightarrow> l | None \<Rightarrow> mkLabel 0 0 False 0),
      predecessors = (\<lambda>v. map fst (filter (\<lambda>e. snd e = v) es))\<rparr>"

text \<open>
  The scenario of the specification: layers \<open>[a, b]\<close> and \<open>[c, d]\<close>, \<open>c\<close> and \<open>d\<close>
  dummy nodes, every width 40.
\<close>

definition scenarioGraph :: graph where
  "scenarioGraph = mkGraph
     [(''a'', mkLabel 0 0 False 40), (''b'', mkLabel 0 1 False 40),
      (''c'', mkLabel 1 0 True 40), (''d'', mkLabel 1 1 True 40)]
     [(''a'', ''c''), (''b'', ''d'')]"

text \<open>
  An inner segment \<open>p1 \<rightarrow> d\<close> that ends at the last node of its layer, crossed by the
  edge \<open>p2 \<rightarrow> a\<close>.
\<close>

definition crossingGraph :: graph where
  "crossingGraph = mkGraph
     [(''p0'', mkLabel 0 0 False 40), (''p1'', mkLabel 0 1 True 40),
      (''p2'', mkLabel 0 2 False 40),
      (''a'', mkLabel 1 0 False 40), (''d'', mkLabel 1 1 True 40)]
     [(''p2'', ''a''), (''p1'', ''d'')]"

definition crossingLayering :: layering where
  "crossingLayering = [[''p0'', ''p1'', ''p2''], [''a'', ''d'']]"

text \<open>The objects at the start of the scan of the crossing example: no conflict recorded yet.\<close>

definition crossingStart :: collect_state where
  "crossingStart = \<lparr>the_graph = crossingGraph, the_conflicts = Map.empty\<rparr>"

text \<open>The conflict set of the crossing example, its alignment along predecessors, and the one successful merge.\<close>

definition crossingConflicts :: conflicts where
  "crossingConflicts = [''a'' \<mapsto> {''p2''}]"

definition crossingAligned :: graph where
  "crossingAligned =
     projr (verticalAlignment crossingGraph crossingLayering crossingConflicts (predecessors crossingGraph))"

definition crossingStep :: align_state where
  "crossingStep = projr (alignCandidate crossingConflicts ''d'' ''p1''
       \<lparr>agraph = initBlocks crossingGraph, cur_prevIdx = - 1\<rparr>)"

text \<open>
  Two blocks that span two layers: \<open>b \<rightarrow> d\<close> and \<open>c \<rightarrow> e\<close> are the only edges,
  \<open>a\<close> has width 100, every other node width 0, no dummy nodes.
\<close>

definition overlapGraph :: graph where
  "overlapGraph = mkGraph
     [(''a'', mkLabel 0 0 False 100), (''b'', mkLabel 0 1 False 0),
      (''c'', mkLabel 1 0 False 0), (''d'', mkLabel 1 1 False 0),
      (''e'', mkLabel 2 0 False 0), (''f'', mkLabel 2 1 False 0)]
     [(''b'', ''d''), (''c'', ''e'')]"

definition overlapLayering :: layering where
  "overlapLayering = [[''a'', ''b''], [''c'', ''d''], [''e'', ''f'']]"

definition overlapAligned :: graph where
  "overlapAligned =
     projr (verticalAlignment overlapGraph overlapLayering Map.empty (predecessors overlapGraph))"

text \<open>The blocks and the coordinates of a graph, node by node.\<close>

definition blocksOf :: "graph \<Rightarrow> (node \<times> node \<times> node) list" where
  "blocksOf g = map (\<lambda>v. (v, rootOf g v, alignOf g v)) (nodeIds g)"

definition coordinates :: "graph \<Rightarrow> (node \<times> real option) list" where
  "coordinates g = map (\<lambda>v. (v, lx (labels g v))) (nodeIds g)"

definition overlapCompacted :: graph where
  "overlapCompacted =
     projr (snd (horizontalCompaction 10 overlapAligned overlapLayering (None :: options option)))"

section \<open>Properties\<close>

subsection \<open>The conflict set\<close>

lemma hasType1Conflict_commute:
  "hasType1Conflict c v w = hasType1Conflict c w v"
  by (cases v w rule: linorder_cases) (auto simp add: hasType1Conflict_def)

lemma addType1Conflict_le:
  "\<not> a > b \<Longrightarrow>
   addType1Conflict c a b = c(a \<mapsto> (case c a of None \<Rightarrow> {b} | Some s \<Rightarrow> insert b s))"
  by (auto simp add: addType1Conflict_def split: option.splits)

lemma addType1Conflict_gt:
  "a > b \<Longrightarrow>
   addType1Conflict c a b = c(b \<mapsto> (case c b of None \<Rightarrow> {a} | Some s \<Rightarrow> insert a s))"
  by (auto simp add: addType1Conflict_def split: option.splits)

lemma hasType1Conflict_le:
  "\<not> v > w \<Longrightarrow> hasType1Conflict c v w = (case c v of None \<Rightarrow> False | Some s \<Rightarrow> w \<in> s)"
  by (simp add: hasType1Conflict_def)

lemma hasType1Conflict_add_le:
  assumes "\<not> v > w"
  shows "hasType1Conflict (addType1Conflict c a b) v w \<longleftrightarrow>
     hasType1Conflict c v w \<or> (v = a \<and> w = b) \<or> (v = b \<and> w = a)"
proof (cases "a > b")
  case True
  with assms show ?thesis
    by (auto simp add: hasType1Conflict_le addType1Conflict_gt split: option.splits)
next
  case False
  with assms show ?thesis
    by (auto simp add: hasType1Conflict_le addType1Conflict_le split: option.splits)
qed

lemma hasType1Conflict_add:
  "hasType1Conflict (addType1Conflict c a b) v w \<longleftrightarrow>
     hasType1Conflict c v w \<or> (v = a \<and> w = b) \<or> (v = b \<and> w = a)"
proof (cases "v > w")
  case True
  then have "\<not> w > v" by simp
  from hasType1Conflict_add_le[OF this, of c a b] show ?thesis
    by (subst hasType1Conflict_commute, subst (2) hasType1Conflict_commute) auto
next
  case False
  then show ?thesis by (rule hasType1Conflict_add_le)
qed

lemma hasType1Conflict_foldl:
  "hasType1Conflict (foldl (\<lambda>c (v, w). addType1Conflict c v w) c0 calls) v w \<longleftrightarrow>
     hasType1Conflict c0 v w \<or> (v, w) \<in> set calls \<or> (w, v) \<in> set calls"
proof (induction calls arbitrary: c0)
  case Nil
  show ?case by simp
next
  case (Cons p ps)
  obtain a b where p: "p = (a, b)" by (cases p)
  show ?case unfolding p by (simp add: Cons.IH hasType1Conflict_add) blast
qed

lemma hasType1Conflict_empty: "\<not> hasType1Conflict Map.empty v w"
  by (simp add: hasType1Conflict_def split: prod.splits)

lemma hasType1Conflict_conflictsFrom:
  "hasType1Conflict (conflictsFrom calls) v w \<longleftrightarrow> (v, w) \<in> set calls \<or> (w, v) \<in> set calls"
  by (simp add: conflictsFrom_def hasType1Conflict_foldl hasType1Conflict_empty)

text \<open>
  C4. The conflict set is symmetric under canonicalisation: on the conflict set built by
  any sequence of \<^verbatim>\<open>addType1Conflict\<close> calls, \<^verbatim>\<open>hasType1Conflict\<close> gives the same
  answer for \<open>(v, w)\<close> and for \<open>(w, v)\<close>, since store and lookup both put the smaller id
  first.
\<close>

theorem conflict_set_symmetric:
  "hasType1Conflict (conflictsFrom calls) v w = hasType1Conflict (conflictsFrom calls) w v"
  by (simp only: hasType1Conflict_conflictsFrom disj_commute)

subsection \<open>Loops\<close>

lemma each_preserves:
  assumes "each f xs s = Inr s'" and "P s"
    and "\<And>a t t'. a \<in> set xs \<Longrightarrow> P t \<Longrightarrow> f a t = Inr t' \<Longrightarrow> P t'"
  shows "P s'"
  using assms
proof (induction xs arbitrary: s)
  case Nil
  then show ?case by simp
next
  case (Cons a as)
  from Cons.prems(1) obtain t where t: "f a s = Inr t" and rest: "each f as t = Inr s'"
    by (auto split: sum.splits)
  have "P t" using Cons.prems(3)[of a s t] Cons.prems(2) t by simp
  moreover have "\<And>b u u'. b \<in> set as \<Longrightarrow> P u \<Longrightarrow> f b u = Inr u' \<Longrightarrow> P u'"
    using Cons.prems(3) by (meson list.set_intros(2))
  ultimately show ?case using rest Cons.IH[of t] by blast
qed

lemma each_append:
  "each f (xs @ ys) s = (case each f xs s of Inl e \<Rightarrow> Inl e | Inr t \<Rightarrow> each f ys t)"
  by (induction xs arbitrary: s) (auto split: sum.splits)

subsection \<open>Conflict detection\<close>

lemma scanPredecessor_graph:
  "scanPredecessor k0 k1 scanNode u st = Inr st' \<Longrightarrow> the_graph st' = the_graph st"
  by (auto simp add: scanPredecessor_def Let_def split: option.splits if_splits)


lemma scanPredecessor_cases:
  assumes "scanPredecessor k0 k1 scanNode u st = Inr st'"
  shows "st' = st \<or>
         (\<exists>uLabel. getNode (the_graph st) u = Some uLabel \<and>
           (order uLabel < k0 \<or> k1 < order uLabel) \<and>
           \<not> (dummy uLabel \<and> (\<exists>l. getNode (the_graph st) scanNode = Some l \<and> dummy l)) \<and>
           st' = st\<lparr>the_conflicts := addType1Conflict (the_conflicts st) u scanNode\<rparr>)"
proof (cases "getNode (the_graph st) u")
  case None
  with assms show ?thesis by (simp add: scanPredecessor_def)
next
  case (Some uLabel)
  show ?thesis
  proof (cases "order uLabel < k0 \<or> k1 < order uLabel")
    case False
    with Some assms show ?thesis by (simp add: scanPredecessor_def Let_def)
  next
    case win: True
    show ?thesis
    proof (cases "dummy uLabel")
      case False
      with win Some assms show ?thesis by (simp add: scanPredecessor_def Let_def)
    next
      case True
      show ?thesis
      proof (cases "getNode (the_graph st) scanNode")
        case None
        with True win Some assms show ?thesis by (simp add: scanPredecessor_def Let_def)
      next
        case (Some l)
        with True win \<open>getNode (the_graph st) u = Some uLabel\<close> assms show ?thesis
          by (simp add: scanPredecessor_def Let_def split: if_splits)
      qed
    qed
  qed
qed

lemma scanPredecessor_recorded:
  assumes "scanPredecessor k0 k1 scanNode u st = Inr st'"
    and "the_conflicts st' \<noteq> the_conflicts st"
  shows "\<exists>uLabel. getNode (the_graph st) u = Some uLabel \<and>
           (order uLabel < k0 \<or> k1 < order uLabel) \<and>
           \<not> (dummy uLabel \<and> (\<exists>l. getNode (the_graph st) scanNode = Some l \<and> dummy l)) \<and>
           the_conflicts st' = addType1Conflict (the_conflicts st) u scanNode"
proof -
  from scanPredecessor_cases[OF assms(1)] assms(2)
  obtain uLabel where "getNode (the_graph st) u = Some uLabel"
    "order uLabel < k0 \<or> k1 < order uLabel"
    "\<not> (dummy uLabel \<and> (\<exists>l. getNode (the_graph st) scanNode = Some l \<and> dummy l))"
    "st' = st\<lparr>the_conflicts := addType1Conflict (the_conflicts st) u scanNode\<rparr>"
    by blast
  then show ?thesis by simp
qed

lemma scanPredecessor_noInnerPair:
  assumes "scanPredecessor k0 k1 scanNode u st = Inr st'"
    and "noInnerPair (the_graph st) (the_conflicts st)"
  shows "noInnerPair (the_graph st) (the_conflicts st')"
proof (cases "the_conflicts st' = the_conflicts st")
  case True
  with assms(2) show ?thesis by simp
next
  case False
  from scanPredecessor_recorded[OF assms(1) False] obtain uLabel where
    u: "getNode (the_graph st) u = Some uLabel"
    and nd: "\<not> (dummy uLabel \<and> (\<exists>l. getNode (the_graph st) scanNode = Some l \<and> dummy l))"
    and c: "the_conflicts st' = addType1Conflict (the_conflicts st) u scanNode"
    by blast
  show ?thesis
    unfolding noInnerPair_def
  proof (intro allI impI)
    fix a b
    assume "hasType1Conflict (the_conflicts st') a b"
    then consider "hasType1Conflict (the_conflicts st) a b" | "a = u \<and> b = scanNode" | "a = scanNode \<and> b = u"
      unfolding c hasType1Conflict_add by blast
    then show "\<not> (\<exists>la lb. getNode (the_graph st) a = Some la \<and> getNode (the_graph st) b = Some lb \<and> dummy la \<and> dummy lb)"
    proof cases
      case 1
      with assms(2) show ?thesis unfolding noInnerPair_def by blast
    next
      case 2
      with u nd show ?thesis by auto
    next
      case 3
      with u nd show ?thesis by auto
    qed
  qed
qed

lemma scanNodePredecessors_preserves:
  assumes "scanInvariant P"
    and "scanNodePredecessors k0 k1 scanNode st = Inr st'" and "P st"
  shows "P st'"
  using assms(2) unfolding scanNodePredecessors_def
proof (rule each_preserves[where P = P])
  show "P st" by fact
next
  fix a t t' assume "P t" "scanPredecessor k0 k1 scanNode a t = Inr t'"
  with assms(1) show "P t'" unfolding scanInvariant_def by blast
qed

lemma rescan_preserves:
  assumes "scanInvariant P"
    and "rescan k0 k1 scanNodes st = Inr st'" and "P st"
  shows "P st'"
  using assms(2) unfolding rescan_def
proof (rule each_preserves[where P = P])
  show "P st" by fact
next
  fix a t t' assume "P t" "scanNodePredecessors k0 k1 a t = Inr t'"
  then show "P t'" using scanNodePredecessors_preserves[OF assms(1)] by blast
qed

lemma visitNode_cases:
  assumes "visitNode prevLayer layer iv vs = Inr vs'"
  shows "vs' = vs \<or>
         (\<exists>k1 st'. rescan (cur_k0 vs) k1 (slice layer (cur_scanPos vs) (fst iv + 1)) (reach vs) = Inr st' \<and>
                   vs' = \<lparr>cur_k0 = k1, cur_scanPos = fst iv + 1, reach = st'\<rparr>)"
  using assms
  by (cases iv) (auto simp add: visitNode_def split: sum.splits if_splits)

lemma visitNode_preserves:
  assumes "scanInvariant P"
    and "visitNode prevLayer layer iv vs = Inr vs'" and "P (reach vs)"
  shows "P (reach vs')"
  using visitNode_cases[OF assms(2)] assms(3) rescan_preserves[OF assms(1)]
  by auto

lemma visitNodes_preserves:
  assumes "scanInvariant P"
    and "each (visitNode prevLayer layer) ivs vs = Inr vs'" and "P (reach vs)"
  shows "P (reach vs')"
proof (rule each_preserves[where P = "\<lambda>vs. P (reach vs)", OF assms(2)])
  show "P (reach vs)" by fact
next
  fix a t t' assume "P (reach t)" "visitNode prevLayer layer a t = Inr t'"
  then show "P (reach t')" using visitNode_preserves[OF assms(1)] by blast
qed

lemma visitLayer_preserves:
  assumes "scanInvariant P"
    and "visitLayer prevLayer layer st = Inr st'" and "P st"
  shows "P st'"
proof -
  from assms(2) obtain vs where
    vs: "each (visitNode prevLayer layer) (enumerate 0 layer) \<lparr>cur_k0 = 0, cur_scanPos = 0, reach = st\<rparr> = Inr vs"
    and st': "st' = reach vs"
    by (auto simp add: visitLayer_def split: sum.splits)
  have "P (reach vs)"
    by (rule visitNodes_preserves[OF assms(1) vs]) (simp add: assms(3))
  with st' show ?thesis by simp
qed

lemma visitLayers_preserves:
  assumes "scanInvariant P"
    and "visitLayers prevLayer rest st = Inr st'" and "P st"
  shows "P st'"
  using assms(2,3)
proof (induction rest arbitrary: prevLayer st)
  case Nil
  then show ?case by simp
next
  case (Cons layer rest)
  from Cons.prems(1) obtain t where t: "visitLayer prevLayer layer st = Inr t"
    and r: "visitLayers layer rest t = Inr st'"
    by (auto split: sum.splits)
  from visitLayer_preserves[OF assms(1) t Cons.prems(2)] have "P t" .
  with Cons.IH[OF r] show ?case .
qed

lemma collect_run_preserves:
  assumes "scanInvariant P"
    and "collectType1Conflicts_run g layering = Inr st'"
    and "P \<lparr>the_graph = g, the_conflicts = Map.empty\<rparr>"
  shows "P st'"
proof (cases layering)
  case Nil
  with assms(2,3) show ?thesis by (simp add: collectType1Conflicts_run_def)
next
  case (Cons firstLayer rest)
  with assms(2) have "visitLayers firstLayer rest \<lparr>the_graph = g, the_conflicts = Map.empty\<rparr> = Inr st'"
    by (simp add: collectType1Conflicts_run_def)
  from visitLayers_preserves[OF assms(1) this assms(3)] show ?thesis .
qed

lemma scanInvariant_graph: "scanInvariant (\<lambda>t. the_graph t = g)"
  unfolding scanInvariant_def using scanPredecessor_graph by simp

lemma scanInvariant_noInnerPair:
  "scanInvariant (\<lambda>t. the_graph t = g \<and> noInnerPair g (the_conflicts t))"
  unfolding scanInvariant_def
proof (intro allI impI)
  fix k0 k1 s u t t'
  assume "the_graph t = g \<and> noInnerPair g (the_conflicts t)" "scanPredecessor k0 k1 s u t = Inr t'"
  then show "the_graph t' = g \<and> noInnerPair g (the_conflicts t')"
    using scanPredecessor_graph[of k0 k1 s u t t'] scanPredecessor_noInnerPair[of k0 k1 s u t t'] by simp
qed

text \<open>
  C9. \<^verbatim>\<open>collectType1Conflicts\<close> has no side effect on the graph: when the call returns,
  the graph it can reach is the graph it was given, every label field included, and the
  returned value is the conflict set it has built.
\<close>

theorem collectType1Conflicts_frame:
  assumes "collectType1Conflicts_run g layering = Inr st"
  shows "the_graph st = g \<and> collectType1Conflicts g layering = Inr (the_conflicts st)"
proof
  show "the_graph st = g"
    by (rule collect_run_preserves[OF scanInvariant_graph assms]) simp
  show "collectType1Conflicts g layering = Inr (the_conflicts st)"
    using assms by (simp add: collectType1Conflicts_def)
qed

lemma collect_noInnerPair:
  assumes "collectType1Conflicts_run g layering = Inr st"
  shows "noInnerPair g (the_conflicts st)"
proof -
  have "the_graph st = g \<and> noInnerPair g (the_conflicts st)"
    by (rule collect_run_preserves[OF scanInvariant_noInnerPair assms])
       (simp add: noInnerPair_def hasType1Conflict_empty)
  then show ?thesis ..
qed

text \<open>
  C5. \<^verbatim>\<open>collectType1Conflicts\<close> never records an inner segment: the returned set
  holds no pair of two dummy nodes. A run of the innermost callback that changes the
  conflict set has added the pair \<open>(u, scanNode)\<close>, and then the order of \<open>u\<close> lies
  strictly outside the window \<open>[k0, k1]\<close> and \<open>u\<close> and \<open>scanNode\<close> are not both dummy.
\<close>

theorem no_inner_segment_conflict:
  "(collectType1Conflicts g layering = Inr c \<and> hasType1Conflict c a b \<longrightarrow>
      \<not> (\<exists>la lb. getNode g a = Some la \<and> getNode g b = Some lb \<and> dummy la \<and> dummy lb)) \<and>
   (scanPredecessor k0 k1 scanNode u st = Inr st' \<and> the_conflicts st' \<noteq> the_conflicts st \<longrightarrow>
      (\<exists>uLabel. getNode (the_graph st) u = Some uLabel \<and>
           (order uLabel < k0 \<or> k1 < order uLabel) \<and>
           \<not> (dummy uLabel \<and> (\<exists>l. getNode (the_graph st) scanNode = Some l \<and> dummy l)) \<and>
           the_conflicts st' = addType1Conflict (the_conflicts st) u scanNode))"
proof (intro conjI impI)
  assume a: "collectType1Conflicts g layering = Inr c \<and> hasType1Conflict c a b"
  then obtain st where st: "collectType1Conflicts_run g layering = Inr st" and c: "c = the_conflicts st"
    by (auto simp add: collectType1Conflicts_def split: sum.splits)
  from collect_noInnerPair[OF st] a c
  show "\<not> (\<exists>la lb. getNode g a = Some la \<and> getNode g b = Some lb \<and> dummy la \<and> dummy lb)"
    unfolding noInnerPair_def by blast
next
  assume "scanPredecessor k0 k1 scanNode u st = Inr st' \<and> the_conflicts st' \<noteq> the_conflicts st"
  then show "\<exists>uLabel. getNode (the_graph st) u = Some uLabel \<and>
           (order uLabel < k0 \<or> k1 < order uLabel) \<and>
           \<not> (dummy uLabel \<and> (\<exists>l. getNode (the_graph st) scanNode = Some l \<and> dummy l)) \<and>
           the_conflicts st' = addType1Conflict (the_conflicts st) u scanNode"
    using scanPredecessor_recorded by blast
qed

subsection \<open>Conflict detection on the example\<close>

lemmas crossing_eval =
  collectType1Conflicts_def collectType1Conflicts_run_def crossingLayering_def
  visitLayer_def visitNode_def enumerate_eq_zip findOtherInnerSegmentNode_def getNode_def
  windowEnd_def truthy_def rescan_def scanNodePredecessors_def scanPredecessor_def slice_def
  addType1Conflict_def crossingGraph_def mkGraph_def mkLabel_def upt_rec

lemma crossing_run:
  "collectType1Conflicts_run crossingGraph crossingLayering =
     Inr \<lparr>the_graph = crossingGraph, the_conflicts = [''a'' \<mapsto> {''p2''}]\<rparr>"
  by (simp add: crossing_eval)

lemma crossing_conflicts:
  "collectType1Conflicts crossingGraph crossingLayering = Inr [''a'' \<mapsto> {''p2''}]"
  by (simp add: collectType1Conflicts_def crossing_run)

text \<open>Witness for C9: the run on the crossing example.\<close>

theorem collectType1Conflicts_frame_witness:
  "collectType1Conflicts_run crossingGraph crossingLayering =
     Inr \<lparr>the_graph = crossingGraph, the_conflicts = [''a'' \<mapsto> {''p2''}]\<rparr> \<and>
   collectType1Conflicts crossingGraph crossingLayering = Inr [''a'' \<mapsto> {''p2''}]"
  using collectType1Conflicts_frame [OF crossing_run] crossing_run by simp

lemma crossing_scan:
  "scanPredecessor 0 1 ''a'' ''p2'' \<lparr>the_graph = crossingGraph, the_conflicts = Map.empty\<rparr> =
     Inr \<lparr>the_graph = crossingGraph, the_conflicts = [''a'' \<mapsto> {''p2''}]\<rparr>"
  by (simp add: scanPredecessor_def getNode_def addType1Conflict_def crossingGraph_def mkGraph_def mkLabel_def)

lemma crossing_has: "hasType1Conflict [''a'' \<mapsto> {''p2''}] ''p2'' ''a''"
  by (simp add: hasType1Conflict_def)

lemma crossing_changed: "[''a'' \<mapsto> {''p2''}] \<noteq> (Map.empty :: conflicts)"
  by (metis fun_upd_same option.distinct(1))

text \<open>Witness for C5: the pair \<open>(p2, a)\<close> of the crossing example.\<close>

theorem no_inner_segment_conflict_witness:
  "collectType1Conflicts crossingGraph crossingLayering = Inr [''a'' \<mapsto> {''p2''}] \<and>
   hasType1Conflict [''a'' \<mapsto> {''p2''}] ''p2'' ''a'' \<and>
   \<not> (\<exists>la lb. getNode crossingGraph ''p2'' = Some la \<and> getNode crossingGraph ''a'' = Some lb \<and>
          dummy la \<and> dummy lb) \<and>
   scanPredecessor 0 1 ''a'' ''p2'' \<lparr>the_graph = crossingGraph, the_conflicts = Map.empty\<rparr> =
     Inr \<lparr>the_graph = crossingGraph, the_conflicts = [''a'' \<mapsto> {''p2''}]\<rparr> \<and>
   (\<exists>uLabel. getNode crossingGraph ''p2'' = Some uLabel \<and> (order uLabel < 0 \<or> 1 < order uLabel))"
proof -
  let ?st = "\<lparr>the_graph = crossingGraph, the_conflicts = Map.empty\<rparr>"
  let ?st' = "\<lparr>the_graph = crossingGraph, the_conflicts = [''a'' \<mapsto> {''p2''}]\<rparr>"
  note inst = no_inner_segment_conflict [of crossingGraph crossingLayering "[''a'' \<mapsto> {''p2''}]"
      "''p2''" "''a''" 0 1 "''a''" "''p2''" ?st ?st']
  have h1: "collectType1Conflicts crossingGraph crossingLayering = Inr [''a'' \<mapsto> {''p2''}] \<and>
            hasType1Conflict [''a'' \<mapsto> {''p2''}] ''p2'' ''a''"
    using crossing_conflicts crossing_has by simp
  have h2: "scanPredecessor 0 1 ''a'' ''p2'' ?st = Inr ?st' \<and> the_conflicts ?st' \<noteq> the_conflicts ?st"
    using crossing_scan crossing_changed by simp
  from inst h1 have c1: "\<not> (\<exists>la lb. getNode crossingGraph ''p2'' = Some la \<and>
      getNode crossingGraph ''a'' = Some lb \<and> dummy la \<and> dummy lb)"
    by (rule conjunct1 [THEN mp])
  from inst h2 have "\<exists>uLabel. getNode (the_graph ?st) ''p2'' = Some uLabel \<and>
           (order uLabel < 0 \<or> 1 < order uLabel) \<and>
           \<not> (dummy uLabel \<and> (\<exists>l. getNode (the_graph ?st) ''a'' = Some l \<and> dummy l)) \<and>
           the_conflicts ?st' = addType1Conflict (the_conflicts ?st) ''p2'' ''a''"
    by (rule conjunct2 [THEN mp])
  then obtain uLabel where u1: "getNode (the_graph ?st) ''p2'' = Some uLabel"
    and u2: "order uLabel < 0 \<or> 1 < order uLabel"
    by blast
  from u1 have "getNode crossingGraph ''p2'' = Some uLabel" by simp
  with u2 have c2: "\<exists>uLabel. getNode crossingGraph ''p2'' = Some uLabel \<and>
      (order uLabel < 0 \<or> 1 < order uLabel)"
    by blast
  from h1 c1 h2 c2 show ?thesis by blast
qed

subsection \<open>The last node of a layer\<close>

lemma each_snoc:
  "each f (xs @ [x]) s = (case each f xs s of Inl e \<Rightarrow> Inl e | Inr t \<Rightarrow> f x t)"
  by (simp add: each_append split: sum.splits)

lemma visitLayer_last:
  assumes "layer \<noteq> []"
  shows "visitLayer prevLayer layer st =
    (case each (visitNode prevLayer layer) (enumerate 0 (butlast layer))
            \<lparr>cur_k0 = 0, cur_scanPos = 0, reach = st\<rparr> of
       Inl e \<Rightarrow> Inl e
     | Inr vs \<Rightarrow>
        (case visitNode prevLayer layer (length layer - 1, last layer) vs of
           Inl e \<Rightarrow> Inl e
         | Inr vs' \<Rightarrow> Inr (reach vs')))"
proof -
  from assms have l: "layer = butlast layer @ [last layer]" by simp
  have "enumerate 0 layer = enumerate 0 (butlast layer) @ [(length layer - 1, last layer)]"
    by (subst l, subst enumerate_append_eq) simp
  then show ?thesis
    by (simp add: visitLayer_def each_snoc split: sum.splits)
qed

lemma visitNode_last:
  assumes "findOtherInnerSegmentNode (the_graph (reach vs)) (last layer) = Inr w"
    and "windowEnd (the_graph (reach vs)) w (length prevLayer) = Inr k1"
  shows "visitNode prevLayer layer (i, last layer) vs =
     (case rescan (cur_k0 vs) k1 (slice layer (cur_scanPos vs) (i + 1)) (reach vs) of
        Inl e \<Rightarrow> Inl e
      | Inr st' \<Rightarrow> Inr \<lparr>cur_k0 = k1, cur_scanPos = i + 1, reach = st'\<rparr>)"
  using assms by (simp add: visitNode_def)

lemma visitLayer_lastNodeRescan:
  assumes "layer \<noteq> []"
    and "findOtherInnerSegmentNode (the_graph st) (last layer) = Inr w"
    and "windowEnd (the_graph st) w (length prevLayer) = Inr k1"
  shows "visitLayer prevLayer layer st = lastNodeRescan k1 prevLayer layer st"
proof (cases "each (visitNode prevLayer layer) (enumerate 0 (butlast layer))
            \<lparr>cur_k0 = 0, cur_scanPos = 0, reach = st\<rparr>")
  case (Inl e)
  then show ?thesis using assms(1) by (simp add: visitLayer_last lastNodeRescan_def)
next
  case (Inr vs)
  have "the_graph (reach vs) = the_graph st"
    by (rule visitNodes_preserves[where P = "\<lambda>t. the_graph t = the_graph st", OF scanInvariant_graph Inr]) simp
  with assms(2,3) have
    "visitNode prevLayer layer (length layer - 1, last layer) vs =
     (case rescan (cur_k0 vs) k1 (slice layer (cur_scanPos vs) (length layer - 1 + 1)) (reach vs) of
        Inl e \<Rightarrow> Inl e
      | Inr st' \<Rightarrow> Inr \<lparr>cur_k0 = k1, cur_scanPos = length layer - 1 + 1, reach = st'\<rparr>)"
    by (intro visitNode_last) simp_all
  moreover from assms(1) have "length layer - 1 + 1 = length layer" by (cases layer) simp_all
  ultimately show ?thesis using Inr assms(1)
    by (simp add: visitLayer_last lastNodeRescan_def split: sum.splits)
qed

text \<open>
  C6, as amended. When the scan of a layer reaches the last node, the pending nodes from
  \<^verbatim>\<open>scanPos\<close> through that index are re-scanned. The window end \<open>k1\<close> is
  \<^verbatim>\<open>prevLayer.length\<close> when \<^verbatim>\<open>findOtherInnerSegmentNode\<close> finds no (truthy) dummy
  predecessor of the last node; when it finds one, \<open>k1\<close> is the order of that
  predecessor.
\<close>

theorem last_node_rescan:
  "(layer \<noteq> [] \<and> findOtherInnerSegmentNode (the_graph st) (last layer) = Inr w \<and> \<not> truthy w \<longrightarrow>
      visitLayer prevLayer layer st = lastNodeRescan_spec prevLayer layer st) \<and>
   (layer \<noteq> [] \<and> findOtherInnerSegmentNode (the_graph st) (last layer) = Inr (Some w') \<and> w' \<noteq> [] \<and>
    getNode (the_graph st) w' = Some wLabel \<longrightarrow>
      visitLayer prevLayer layer st = lastNodeRescan (order wLabel) prevLayer layer st)"
proof (intro conjI impI)
  assume a: "layer \<noteq> [] \<and> findOtherInnerSegmentNode (the_graph st) (last layer) = Inr w \<and> \<not> truthy w"
  then have "windowEnd (the_graph st) w (length prevLayer) = Inr (int (length prevLayer))"
    by (simp add: windowEnd_def)
  with a have "visitLayer prevLayer layer st = lastNodeRescan (int (length prevLayer)) prevLayer layer st"
    by (intro visitLayer_lastNodeRescan) simp_all
  then show "visitLayer prevLayer layer st = lastNodeRescan_spec prevLayer layer st"
    by (simp add: lastNodeRescan_def lastNodeRescan_spec_def)
next
  assume a: "layer \<noteq> [] \<and> findOtherInnerSegmentNode (the_graph st) (last layer) = Inr (Some w') \<and> w' \<noteq> [] \<and>
    getNode (the_graph st) w' = Some wLabel"
  then have "windowEnd (the_graph st) (Some w') (length prevLayer) = Inr (order wLabel)"
    by (simp add: windowEnd_def truthy_def)
  with a show "visitLayer prevLayer layer st = lastNodeRescan (order wLabel) prevLayer layer st"
    by (intro visitLayer_lastNodeRescan) simp_all
qed

lemma scenario_find_d: "findOtherInnerSegmentNode scenarioGraph ''d'' = Inr None"
  by (simp add: findOtherInnerSegmentNode_def getNode_def scenarioGraph_def mkGraph_def mkLabel_def)

lemma crossing_find_d: "findOtherInnerSegmentNode crossingGraph ''d'' = Inr (Some ''p1'')"
  by (simp add: findOtherInnerSegmentNode_def getNode_def crossingGraph_def mkGraph_def mkLabel_def)

lemma crossing_getNode_p1: "getNode crossingGraph ''p1'' = Some (mkLabel 0 1 True 40)"
  by (simp add: getNode_def crossingGraph_def mkGraph_def)

text \<open>
  Witness for C6: the last node of the scenario has no dummy predecessor, the last node
  of the crossing example has the dummy predecessor \<open>p1\<close> of order 1.
\<close>

theorem last_node_rescan_witness:
  "visitLayer [''a'', ''b''] [''c'', ''d''] \<lparr>the_graph = scenarioGraph, the_conflicts = Map.empty\<rparr> =
     lastNodeRescan_spec [''a'', ''b''] [''c'', ''d'']
       \<lparr>the_graph = scenarioGraph, the_conflicts = Map.empty\<rparr> \<and>
   visitLayer [''p0'', ''p1'', ''p2''] [''a'', ''d'']
       \<lparr>the_graph = crossingGraph, the_conflicts = Map.empty\<rparr> =
     lastNodeRescan 1 [''p0'', ''p1'', ''p2''] [''a'', ''d'']
       \<lparr>the_graph = crossingGraph, the_conflicts = Map.empty\<rparr>"
proof
  show "visitLayer [''a'', ''b''] [''c'', ''d''] \<lparr>the_graph = scenarioGraph, the_conflicts = Map.empty\<rparr> =
     lastNodeRescan_spec [''a'', ''b''] [''c'', ''d'']
       \<lparr>the_graph = scenarioGraph, the_conflicts = Map.empty\<rparr>"
    using last_node_rescan [of "[''c'', ''d'']"
        "\<lparr>the_graph = scenarioGraph, the_conflicts = Map.empty\<rparr>" None "[''a'', ''b'']"
        "''p1''" "mkLabel 0 1 True 40"]
    by (simp add: scenario_find_d truthy_def)
  show "visitLayer [''p0'', ''p1'', ''p2''] [''a'', ''d'']
       \<lparr>the_graph = crossingGraph, the_conflicts = Map.empty\<rparr> =
     lastNodeRescan 1 [''p0'', ''p1'', ''p2''] [''a'', ''d'']
       \<lparr>the_graph = crossingGraph, the_conflicts = Map.empty\<rparr>"
    using last_node_rescan [of "[''a'', ''d'']"
        "\<lparr>the_graph = crossingGraph, the_conflicts = Map.empty\<rparr>" None "[''p0'', ''p1'', ''p2'']"
        "''p1''" "mkLabel 0 1 True 40"]
    by (simp add: crossing_find_d crossing_getNode_p1 mkLabel_def)
qed

lemma crossing_visit:
  "visitLayer [''p0'', ''p1'', ''p2''] [''a'', ''d''] \<lparr>the_graph = crossingGraph, the_conflicts = Map.empty\<rparr> =
     Inr \<lparr>the_graph = crossingGraph, the_conflicts = [''a'' \<mapsto> {''p2''}]\<rparr>"
  by (simp add: crossing_eval)

lemma crossing_spec:
  "lastNodeRescan_spec [''p0'', ''p1'', ''p2''] [''a'', ''d''] \<lparr>the_graph = crossingGraph, the_conflicts = Map.empty\<rparr> =
     Inr \<lparr>the_graph = crossingGraph, the_conflicts = Map.empty\<rparr>"
  by (simp add: lastNodeRescan_spec_def crossing_eval)

text \<open>
  C6 as stated fails: in the crossing example the last node \<open>d\<close> ends an inner segment,
  the re-scan uses \<open>k1 = 1\<close> and records \<open>(p2, a)\<close>; with \<^verbatim>\<open>prevLayer.length = 3\<close>
  nothing would be recorded.
\<close>

theorem last_node_rescan_counterexample:
  "visitLayer [''p0'', ''p1'', ''p2''] [''a'', ''d''] crossingStart \<noteq>
   lastNodeRescan_spec [''p0'', ''p1'', ''p2''] [''a'', ''d''] crossingStart"
  using crossing_changed by (simp add: crossingStart_def crossing_visit crossing_spec)

subsection \<open>Separation and options\<close>

text \<open>
  C7. The separation is \<open>width(u)/2\<close> plus half of \<^verbatim>\<open>edgesep\<close> or \<^verbatim>\<open>nodesep\<close> for
  \<open>u\<close>, the same for \<open>w\<close>, plus \<open>width(w)/2\<close>; and \<^verbatim>\<open>horizontalCompaction\<close>
  called without options, or with options that lack a key, compacts with
  \<^verbatim>\<open>nodesep = 50\<close> and \<^verbatim>\<open>edgesep = 10\<close> for the missing keys.
\<close>

theorem sep_formula_and_defaults:
  fixes opts :: "'a options_scheme" and options :: "'a options_scheme"
  shows "(getNode g w = Some wLabel \<and> getNode g u = Some uLabel \<and>
    nodesep options = Some ns \<and> edgesep options = Some es \<longrightarrow>
      sep g options w u =
        Inr (width uLabel / 2 + (if dummy uLabel then es / 2 else ns / 2) +
             (if dummy wLabel then es / 2 else ns / 2) + width wLabel / 2)) \<and>
   snd (horizontalCompaction fuel g layering (None :: 'a options_scheme option)) =
     compact fuel g layering \<lparr>nodesep = Some 50, edgesep = Some 10\<rparr> \<and>
   snd (horizontalCompaction fuel g layering (Some opts)) =
     compact fuel g layering
       (opts\<lparr>nodesep := Some (case nodesep opts of None \<Rightarrow> 50 | Some n \<Rightarrow> n),
             edgesep := Some (case edgesep opts of None \<Rightarrow> 10 | Some e \<Rightarrow> e)\<rparr>)"
proof (intro conjI impI)
  assume "getNode g w = Some wLabel \<and> getNode g u = Some uLabel \<and>
    nodesep options = Some ns \<and> edgesep options = Some es"
  then show "sep g options w u =
        Inr (width uLabel / 2 + (if dummy uLabel then es / 2 else ns / 2) +
             (if dummy wLabel then es / 2 else ns / 2) + width wLabel / 2)"
    by (simp add: sep_def)
next
  show "snd (horizontalCompaction fuel g layering (None :: 'a options_scheme option)) =
     compact fuel g layering \<lparr>nodesep = Some 50, edgesep = Some 10\<rparr>"
    by (simp add: horizontalCompaction_def defaults_def)
next
  have "defaults opts = opts\<lparr>nodesep := Some (case nodesep opts of None \<Rightarrow> 50 | Some n \<Rightarrow> n),
             edgesep := Some (case edgesep opts of None \<Rightarrow> 10 | Some e \<Rightarrow> e)\<rparr>"
    by (simp add: defaults_def split: option.splits)
  then show "snd (horizontalCompaction fuel g layering (Some opts)) =
     compact fuel g layering
       (opts\<lparr>nodesep := Some (case nodesep opts of None \<Rightarrow> 50 | Some n \<Rightarrow> n),
             edgesep := Some (case edgesep opts of None \<Rightarrow> 10 | Some e \<Rightarrow> e)\<rparr>)"
    by (simp add: horizontalCompaction_def)
qed

lemma getNode_scenario_c: "getNode scenarioGraph ''c'' = Some (mkLabel 1 0 True 40)"
  by (simp add: getNode_def scenarioGraph_def mkGraph_def)
lemma getNode_scenario_d: "getNode scenarioGraph ''d'' = Some (mkLabel 1 1 True 40)"
  by (simp add: getNode_def scenarioGraph_def mkGraph_def)

text \<open>Witness for C7: the two dummy nodes of the scenario are 50 apart.\<close>

theorem sep_formula_and_defaults_witness:
  "getNode scenarioGraph ''d'' = Some (mkLabel 1 1 True 40) \<and>
   getNode scenarioGraph ''c'' = Some (mkLabel 1 0 True 40) \<and>
   sep scenarioGraph (defaults \<lparr>nodesep = None, edgesep = None\<rparr>) ''d'' ''c'' = Inr 50"
  using sep_formula_and_defaults [of scenarioGraph "''d''" "mkLabel 1 1 True 40" "''c''"
      "mkLabel 1 0 True 40" "defaults \<lparr>nodesep = None, edgesep = None\<rparr>" 50 10
      0 "[]" "\<lparr>nodesep = None, edgesep = None\<rparr>"]
  by (simp add: getNode_scenario_c getNode_scenario_d defaults_def mkLabel_def)

text \<open>
  C10. \<^verbatim>\<open>horizontalCompaction\<close> writes the defaults into the caller's options object:
  after the call a missing \<^verbatim>\<open>nodesep\<close> is 50 and a missing \<^verbatim>\<open>edgesep\<close> is 10, a key
  that was present keeps its value, and so does every other key of the object.
\<close>

theorem options_defaults_in_place:
  "\<exists>opts'. fst (horizontalCompaction fuel g layering (Some opts)) = Some opts' \<and>
      (nodesep opts = None \<longrightarrow> nodesep opts' = Some 50) \<and>
      (edgesep opts = None \<longrightarrow> edgesep opts' = Some 10) \<and>
      (\<forall>n. nodesep opts = Some n \<longrightarrow> nodesep opts' = Some n) \<and>
      (\<forall>e. edgesep opts = Some e \<longrightarrow> edgesep opts' = Some e) \<and>
      options.more opts' = options.more opts"
  by (simp add: horizontalCompaction_def defaults_def)

text \<open>Witness for C10: an options object with \<^verbatim>\<open>edgesep\<close> and one more key.\<close>

theorem options_defaults_in_place_witness:
  "fst (horizontalCompaction 0 scenarioGraph [] (Some \<lparr>nodesep = None, edgesep = Some 7, \<dots> = ''marginx''\<rparr>))
     = Some \<lparr>nodesep = Some 50, edgesep = Some 7, \<dots> = ''marginx''\<rparr>"
  using options_defaults_in_place [of 0 scenarioGraph "[]" "\<lparr>nodesep = None, edgesep = Some 7, \<dots> = ''marginx''\<rparr>"]
  by (simp add: horizontalCompaction_def defaults_def)

subsection \<open>Vertical alignment and recorded conflicts\<close>

lemma nodeIds_setNode [simp]: "nodeIds (setNode g v l) = nodeIds g"
  by (simp add: setNode_def)

lemma predecessors_setNode [simp]: "predecessors (setNode g v l) = predecessors g"
  by (simp add: setNode_def)

lemma labels_setNode: "labels (setNode g v l) n = (if n = v then l else labels g n)"
  by (simp add: setNode_def)

lemma getNode_Some: "getNode g v = Some l \<longleftrightarrow> v \<in> set (nodeIds g) \<and> l = labels g v"
  by (auto simp add: getNode_def)

lemma getNode_None: "getNode g v = None \<longleftrightarrow> v \<notin> set (nodeIds g)"
  by (simp add: getNode_def)

text \<open>What a run of the loop body for a candidate does.\<close>

lemma alignCandidate_cases:
  assumes "alignCandidate c v w st = Inr st'"
  shows "st' = st \<or>
     (v \<in> set (nodeIds (agraph st)) \<and> w \<in> set (nodeIds (agraph st)) \<and>
      alignOf (agraph st) v = v \<and> cur_prevIdx st < order (labels (agraph st) w) \<and>
      \<not> hasType1Conflict c v w \<and>
      cur_prevIdx st' = order (labels (agraph st) w) \<and>
      nodeIds (agraph st') = nodeIds (agraph st) \<and>
      predecessors (agraph st') = predecessors (agraph st) \<and>
      (\<forall>n. labels (agraph st') n =
         (if n = v then (labels (agraph st) v)\<lparr>lroot := rootOf (agraph st) w, lalign := rootOf (agraph st) w\<rparr>
          else if n = w then (labels (agraph st) w)\<lparr>lalign := v\<rparr>
          else labels (agraph st) n)))"
proof (cases "getNode (agraph st) v")
  case None
  with assms show ?thesis by (simp add: alignCandidate_def)
next
  case (Some vLab)
  note v = this
  show ?thesis
  proof (cases "lalign vLab = v")
    case False
    with v assms show ?thesis by (simp add: alignCandidate_def)
  next
    case al: True
    show ?thesis
    proof (cases "getNode (agraph st) w")
      case None
      with al v assms show ?thesis by (simp add: alignCandidate_def)
    next
      case (Some wLab)
      note w = this
      show ?thesis
      proof (cases "cur_prevIdx st < order wLab \<and> \<not> hasType1Conflict c v w")
        case False
        with w al v assms show ?thesis by (simp add: alignCandidate_def)
      next
        case True
        from v w have vl: "vLab = labels (agraph st) v" and wl: "wLab = labels (agraph st) w"
          and vin: "v \<in> set (nodeIds (agraph st))" and win: "w \<in> set (nodeIds (agraph st))"
          by (simp_all add: getNode_Some)
        from True w al v assms have st': "st' =
            \<lparr>agraph = setNode (setNode (agraph st) w (wLab\<lparr>lalign := v\<rparr>)) v
               ((labels (setNode (agraph st) w (wLab\<lparr>lalign := v\<rparr>)) v)
                  \<lparr>lroot := lroot (labels (setNode (agraph st) w (wLab\<lparr>lalign := v\<rparr>)) w),
                    lalign := lroot (labels (setNode (agraph st) w (wLab\<lparr>lalign := v\<rparr>)) w)\<rparr>),
             cur_prevIdx = order wLab\<rparr>"
          by (simp add: alignCandidate_def Let_def)
        have "\<forall>n. labels (agraph st') n =
         (if n = v then (labels (agraph st) v)\<lparr>lroot := rootOf (agraph st) w, lalign := rootOf (agraph st) w\<rparr>
          else if n = w then (labels (agraph st) w)\<lparr>lalign := v\<rparr>
          else labels (agraph st) n)"
          unfolding st' using al vl wl
          by (simp add: labels_setNode rootOf_def)
        moreover have "nodeIds (agraph st') = nodeIds (agraph st)"
          "predecessors (agraph st') = predecessors (agraph st)"
          "cur_prevIdx st' = order (labels (agraph st) w)"
          unfolding st' using wl by simp_all
        moreover have "alignOf (agraph st) v = v" using al vl by (simp add: alignOf_def)
        ultimately show ?thesis using True vin win wl by simp
      qed
    qed
  qed
qed

lemma alignCandidate_changed:
  assumes "alignCandidate c v w st = Inr st'" and "st' \<noteq> st"
  shows "v \<in> set (nodeIds (agraph st)) \<and> w \<in> set (nodeIds (agraph st)) \<and>
      alignOf (agraph st) v = v \<and> cur_prevIdx st < order (labels (agraph st) w) \<and>
      \<not> hasType1Conflict c v w"
  using alignCandidate_cases[OF assms(1)] assms(2) by blast

lemma alignCandidate_conflictFree:
  assumes "alignCandidate c v w st = Inr st'" and "conflictFree c (agraph st)"
  shows "conflictFree c (agraph st')"
  using alignCandidate_cases[OF assms(1)]
proof
  assume "st' = st" with assms(2) show ?thesis by simp
next
  assume m: "v \<in> set (nodeIds (agraph st)) \<and> w \<in> set (nodeIds (agraph st)) \<and>
      alignOf (agraph st) v = v \<and> cur_prevIdx st < order (labels (agraph st) w) \<and>
      \<not> hasType1Conflict c v w \<and>
      cur_prevIdx st' = order (labels (agraph st) w) \<and>
      nodeIds (agraph st') = nodeIds (agraph st) \<and>
      predecessors (agraph st') = predecessors (agraph st) \<and>
      (\<forall>n. labels (agraph st') n =
         (if n = v then (labels (agraph st) v)\<lparr>lroot := rootOf (agraph st) w, lalign := rootOf (agraph st) w\<rparr>
          else if n = w then (labels (agraph st) w)\<lparr>lalign := v\<rparr>
          else labels (agraph st) n))"
  show ?thesis
    unfolding conflictFree_def
  proof
    fix n assume "n \<in> set (nodeIds (agraph st'))"
    with m have nin: "n \<in> set (nodeIds (agraph st))" by simp
    from m have lab: "labels (agraph st') n =
         (if n = v then (labels (agraph st) v)\<lparr>lroot := rootOf (agraph st) w, lalign := rootOf (agraph st) w\<rparr>
          else if n = w then (labels (agraph st) w)\<lparr>lalign := v\<rparr>
          else labels (agraph st) n)" by blast
    consider "n = v" | "n \<noteq> v" "n = w" | "n \<noteq> v" "n \<noteq> w" by blast
    then show "alignOf (agraph st') n = n \<or> rootOf (agraph st') n = alignOf (agraph st') n \<or>
         \<not> hasType1Conflict c (alignOf (agraph st') n) n"
    proof cases
      case 1
      with lab show ?thesis by (simp add: alignOf_def rootOf_def)
    next
      case 2
      with lab m show ?thesis by (simp add: alignOf_def rootOf_def)
    next
      case 3
      with lab have "labels (agraph st') n = labels (agraph st) n" by simp
      with assms(2) nin show ?thesis by (simp add: conflictFree_def alignOf_def rootOf_def)
    qed
  qed
qed

lemma alignNode_conflictFree:
  assumes "alignNode c nf v st = Inr st'" and "conflictFree c (agraph st)"
  shows "conflictFree c (agraph st')"
proof (cases "nf v = []")
  case True
  with assms show ?thesis by (simp add: alignNode_def)
next
  case False
  with assms(1) have e: "each (alignCandidate c v) (medians (nf v)) st = Inr st'"
    by (simp add: alignNode_def)
  show ?thesis
    by (rule each_preserves[where P = "\<lambda>t. conflictFree c (agraph t)", OF e assms(2)])
       (rule alignCandidate_conflictFree)
qed

lemma alignLayer_conflictFree:
  assumes "alignLayer c nf layer g = Inr g'" and "conflictFree c g"
  shows "conflictFree c g'"
proof -
  from assms(1) obtain st where
    e: "each (alignNode c nf) layer \<lparr>agraph = g, cur_prevIdx = - 1\<rparr> = Inr st" and g': "g' = agraph st"
    by (auto simp add: alignLayer_def split: sum.splits)
  have "conflictFree c (agraph st)"
    by (rule each_preserves[where P = "\<lambda>t. conflictFree c (agraph t)", OF e])
       (simp add: assms(2), rule alignNode_conflictFree)
  with g' show ?thesis by simp
qed

lemma initBlocks_fold:
  "nodeIds (fold initBlock ns g) = nodeIds g \<and>
   predecessors (fold initBlock ns g) = predecessors g \<and>
   (\<forall>n. labels (fold initBlock ns g) n =
      (if n \<in> set ns then (labels g n)\<lparr>lroot := n, lalign := n\<rparr> else labels g n))"
proof (induction ns arbitrary: g)
  case Nil
  show ?case by simp
next
  case (Cons a ns)
  show ?case
    by (simp add: Cons.IH[of "initBlock a g"]) (simp add: initBlock_def labels_setNode)
qed

lemma nodeIds_initBlocks [simp]: "nodeIds (initBlocks g) = nodeIds g"
  by (simp add: initBlocks_def initBlocks_fold)

lemma labels_initBlocks:
  "labels (initBlocks g) n =
     (if n \<in> set (nodeIds g) then (labels g n)\<lparr>lroot := n, lalign := n\<rparr> else labels g n)"
  by (simp add: initBlocks_def initBlocks_fold)

lemma conflictFree_initBlocks: "conflictFree c (initBlocks g)"
  by (simp add: conflictFree_def alignOf_def labels_initBlocks)

text \<open>
  C3. \<^verbatim>\<open>verticalAlignment\<close> never merges across a recorded conflict: in the graph it
  returns, every link \<open>align(n) = v\<close> other than a self-link and the closing link to the
  root joins a pair without conflict; and a run of the loop body that changes anything
  (a merge of \<open>v\<close> with \<open>w\<close>) has \<open>(v, w)\<close> without conflict, \<^verbatim>\<open>v.align == v\<close> and
  the order of \<open>w\<close> strictly above \<^verbatim>\<open>prevIdx\<close>.
\<close>

theorem no_merge_across_conflict:
  "(verticalAlignment g layering conflicts neighborFn = Inr g' \<and> n \<in> set (nodeIds g') \<and>
    alignOf g' n \<noteq> n \<and> rootOf g' n \<noteq> alignOf g' n \<longrightarrow>
      \<not> hasType1Conflict conflicts (alignOf g' n) n) \<and>
   (alignCandidate conflicts v w st = Inr st' \<and> st' \<noteq> st \<longrightarrow>
      \<not> hasType1Conflict conflicts v w \<and> alignOf (agraph st) v = v \<and>
      cur_prevIdx st < order (labels (agraph st) w))"
proof (rule conjI)
  show "verticalAlignment g layering conflicts neighborFn = Inr g' \<and> n \<in> set (nodeIds g') \<and>
    alignOf g' n \<noteq> n \<and> rootOf g' n \<noteq> alignOf g' n \<longrightarrow>
      \<not> hasType1Conflict conflicts (alignOf g' n) n"
  proof (rule impI)
    assume a: "verticalAlignment g layering conflicts neighborFn = Inr g' \<and> n \<in> set (nodeIds g') \<and>
      alignOf g' n \<noteq> n \<and> rootOf g' n \<noteq> alignOf g' n"
    then have e: "each (alignLayer conflicts neighborFn) layering (initBlocks g) = Inr g'"
      by (simp add: verticalAlignment_def)
    have "conflictFree conflicts g'"
      by (rule each_preserves[where P = "\<lambda>t. conflictFree conflicts t", OF e conflictFree_initBlocks])
         (rule alignLayer_conflictFree)
    with a show "\<not> hasType1Conflict conflicts (alignOf g' n) n"
      unfolding conflictFree_def by blast
  qed
  show "alignCandidate conflicts v w st = Inr st' \<and> st' \<noteq> st \<longrightarrow>
      \<not> hasType1Conflict conflicts v w \<and> alignOf (agraph st) v = v \<and>
      cur_prevIdx st < order (labels (agraph st) w)"
    using alignCandidate_changed by blast
qed

lemma crossing_aligned:
  "verticalAlignment crossingGraph crossingLayering crossingConflicts (predecessors crossingGraph) =
     Inr crossingAligned"
proof -
  have "\<not> isl (verticalAlignment crossingGraph crossingLayering crossingConflicts (predecessors crossingGraph))"
    by code_simp
  then show ?thesis unfolding crossingAligned_def by simp
qed

lemma crossing_step:
  "alignCandidate crossingConflicts ''d'' ''p1'' \<lparr>agraph = initBlocks crossingGraph, cur_prevIdx = - 1\<rparr> =
     Inr crossingStep"
proof -
  have "\<not> isl (alignCandidate crossingConflicts ''d'' ''p1'' \<lparr>agraph = initBlocks crossingGraph, cur_prevIdx = - 1\<rparr>)"
    by code_simp
  then show ?thesis unfolding crossingStep_def by simp
qed

lemma crossing_step_changed:
  "crossingStep \<noteq> \<lparr>agraph = initBlocks crossingGraph, cur_prevIdx = - 1\<rparr>"
proof -
  have "cur_prevIdx crossingStep = 1" by code_simp
  moreover have "cur_prevIdx \<lparr>agraph = initBlocks crossingGraph, cur_prevIdx = - 1\<rparr> = - 1" by simp
  ultimately show ?thesis by (metis one_neq_neg_one)
qed

lemma crossing_aligned_p1:
  "''p1'' \<in> set (nodeIds crossingAligned) \<and> alignOf crossingAligned ''p1'' = ''d'' \<and>
   rootOf crossingAligned ''p1'' = ''p1''"
  by code_simp

text \<open>
  Witness for C3: in the crossing example \<open>d\<close> is merged with \<open>p1\<close>.
\<close>

theorem no_merge_across_conflict_witness:
  "verticalAlignment crossingGraph crossingLayering crossingConflicts (predecessors crossingGraph) =
     Inr crossingAligned \<and>
   ''p1'' \<in> set (nodeIds crossingAligned) \<and> alignOf crossingAligned ''p1'' = ''d'' \<and>
   rootOf crossingAligned ''p1'' = ''p1'' \<and>
   alignCandidate crossingConflicts ''d'' ''p1'' \<lparr>agraph = initBlocks crossingGraph, cur_prevIdx = - 1\<rparr> =
     Inr crossingStep \<and>
   crossingStep \<noteq> \<lparr>agraph = initBlocks crossingGraph, cur_prevIdx = - 1\<rparr> \<and>
   \<not> hasType1Conflict crossingConflicts ''d'' ''p1'' \<and>
   alignOf (initBlocks crossingGraph) ''d'' = ''d'' \<and>
   - 1 < order (labels (initBlocks crossingGraph) ''p1'')"
  using no_merge_across_conflict [of crossingGraph crossingLayering crossingConflicts
      "predecessors crossingGraph" crossingAligned "''p1''" "''d''" "''p1''"
      "\<lparr>agraph = initBlocks crossingGraph, cur_prevIdx = - 1\<rparr>" crossingStep]
    crossing_aligned crossing_step crossing_step_changed crossing_aligned_p1
  by simp

subsection \<open>Compaction of the two-layer blocks\<close>

lemma overlap_aligned:
  "verticalAlignment overlapGraph overlapLayering Map.empty (predecessors overlapGraph) =
     Inr overlapAligned"
proof -
  have "\<not> isl (verticalAlignment overlapGraph overlapLayering Map.empty (predecessors overlapGraph))"
    by code_simp
  then show ?thesis unfolding overlapAligned_def by simp
qed

lemma overlap_blocks:
  "blocksOf overlapAligned =
     [(''a'', ''a'', ''a''), (''b'', ''b'', ''d''), (''c'', ''c'', ''e''),
      (''d'', ''b'', ''b''), (''e'', ''c'', ''c''), (''f'', ''f'', ''f'')]"
  by code_simp

lemma overlap_placed:
  "(case each (placeRoot 10 overlapLayering \<lparr>nodesep = Some 50, edgesep = Some 10\<rparr>)
           (nodeIds overlapAligned)
           \<lparr>cgraph = overlapAligned, shift = (\<lambda>v. None), sink = (\<lambda>v. v)\<rparr> of
      Inl e \<Rightarrow> False
    | Inr st \<Rightarrow>
        sink st ''c'' = ''c'' \<and> sink st ''f'' = ''c'' \<and> shift st ''c'' = Some 50 \<and>
        coordinates (cgraph st) =
          [(''a'', Some 0), (''b'', Some 100), (''c'', Some 0),
           (''d'', None), (''e'', None), (''f'', Some 50)])"
  by code_simp

lemma overlap_sep:
  "sep overlapAligned \<lparr>nodesep = Some 50, edgesep = Some 10\<rparr> ''f'' ''e'' = Inr 50"
  by code_simp

lemma overlap_compacted:
  "map_sum id coordinates
     (snd (horizontalCompaction 10 overlapAligned overlapLayering (None :: options option))) =
   Inr [(''a'', Some 0), (''b'', Some 100), (''c'', Some 50),
        (''d'', Some 100), (''e'', Some 100), (''f'', Some 100)]"
  by code_simp

text \<open>
  C1 (separation after compaction), evaluated on the two-layer blocks. Alignment along
  predecessors gives the blocks \<open>{a}\<close>, \<open>{b, d}\<close>, \<open>{c, e}\<close>, \<open>{f}\<close>. After the
  placement loop \<open>f\<close> and the root \<open>c\<close> of \<open>e\<close> are in the sink group of \<open>c\<close>, which has
  the shift 50, and \<open>x(f) = x(c) + 50\<close>. The last loop adds the shift to \<open>c\<close> and then
  reads the shifted \<open>x(c)\<close> for \<open>e\<close> and adds the shift again: \<open>e\<close> and its right
  neighbour \<open>f\<close> both end at 100, although their separation is 50.
\<close>

theorem compaction_overlap:
  "verticalAlignment overlapGraph overlapLayering Map.empty (predecessors overlapGraph) =
     Inr overlapAligned \<and>
   blocksOf overlapAligned =
     [(''a'', ''a'', ''a''), (''b'', ''b'', ''d''), (''c'', ''c'', ''e''),
      (''d'', ''b'', ''b''), (''e'', ''c'', ''c''), (''f'', ''f'', ''f'')] \<and>
   (case each (placeRoot 10 overlapLayering \<lparr>nodesep = Some 50, edgesep = Some 10\<rparr>)
           (nodeIds overlapAligned)
           \<lparr>cgraph = overlapAligned, shift = (\<lambda>v. None), sink = (\<lambda>v. v)\<rparr> of
      Inl e \<Rightarrow> False
    | Inr st \<Rightarrow>
        sink st ''c'' = ''c'' \<and> sink st ''f'' = ''c'' \<and> shift st ''c'' = Some 50 \<and>
        coordinates (cgraph st) =
          [(''a'', Some 0), (''b'', Some 100), (''c'', Some 0),
           (''d'', None), (''e'', None), (''f'', Some 50)]) \<and>
   sep overlapAligned \<lparr>nodesep = Some 50, edgesep = Some 10\<rparr> ''f'' ''e'' = Inr 50 \<and>
   map_sum id coordinates
     (snd (horizontalCompaction 10 overlapAligned overlapLayering (None :: options option))) =
   Inr [(''a'', Some 0), (''b'', Some 100), (''c'', Some 50),
        (''d'', Some 100), (''e'', Some 100), (''f'', Some 100)]"
  using overlap_aligned overlap_blocks overlap_placed overlap_sep overlap_compacted
  by (intro conjI)

subsection \<open>Compaction writes only coordinates\<close>

lemma onlyX_refl: "onlyX g g"
proof -
  have "\<forall>v. \<exists>xv. labels g v = (labels g v)\<lparr>lx := xv\<rparr>"
  proof
    fix v show "\<exists>xv. labels g v = (labels g v)\<lparr>lx := xv\<rparr>"
      by (rule exI[of _ "lx (labels g v)"]) simp
  qed
  then show ?thesis by (simp add: onlyX_def)
qed

lemma onlyX_trans:
  assumes "onlyX g h" and "onlyX h k"
  shows "onlyX g k"
proof -
  have "\<forall>v. \<exists>xv. labels k v = (labels g v)\<lparr>lx := xv\<rparr>"
  proof
    fix v
    from assms(1) obtain a where a: "labels h v = (labels g v)\<lparr>lx := a\<rparr>"
      unfolding onlyX_def by blast
    from assms(2) obtain b where b: "labels k v = (labels h v)\<lparr>lx := b\<rparr>"
      unfolding onlyX_def by blast
    show "\<exists>xv. labels k v = (labels g v)\<lparr>lx := xv\<rparr>"
      by (rule exI[of _ b]) (simp add: a b)
  qed
  with assms show ?thesis by (simp add: onlyX_def)
qed

lemma onlyX_setX:
  assumes "v \<in> set (nodeIds g)"
  shows "onlyX g (setNode g v ((labels g v)\<lparr>lx := a\<rparr>))"
proof -
  have "\<forall>n. \<exists>xv. labels (setNode g v ((labels g v)\<lparr>lx := a\<rparr>)) n = (labels g n)\<lparr>lx := xv\<rparr>"
  proof
    fix n
    show "\<exists>xv. labels (setNode g v ((labels g v)\<lparr>lx := a\<rparr>)) n = (labels g n)\<lparr>lx := xv\<rparr>"
    proof (cases "n = v")
      case True
      then show ?thesis by (intro exI[of _ a]) (simp add: labels_setNode)
    next
      case False
      then show ?thesis by (intro exI[of _ "lx (labels g n)"]) (simp add: labels_setNode)
    qed
  qed
  with assms show ?thesis by (auto simp add: onlyX_def labels_setNode)
qed

lemma onlyX_nodeIds: "onlyX g g' \<Longrightarrow> nodeIds g' = nodeIds g"
  by (simp add: onlyX_def)

lemma constrain_frame:
  assumes "constrain opts v w u st = Inr st'" and "v \<in> set (nodeIds (cgraph st))"
  shows "onlyX (cgraph st) (cgraph st')"
proof -
  define st1 where "st1 = (if sink st v = v then st\<lparr>sink := (sink st)(v := sink st u)\<rparr> else st)"
  have g1: "cgraph st1 = cgraph st" by (simp add: st1_def)
  from assms(1) have "cgraph st' = cgraph st1 \<or>
     (\<exists>a. cgraph st' = setNode (cgraph st1) v ((labels (cgraph st1) v)\<lparr>lx := a\<rparr>))"
    unfolding constrain_def st1_def[symmetric] Let_def
    by (auto split: sum.splits option.splits if_splits)
  then show ?thesis using onlyX_refl onlyX_setX[OF assms(2)] g1 by auto
qed

lemma place_frame:
  "(\<forall>v st st'. placeBlock n lay opts v st = Inr st' \<longrightarrow> onlyX (cgraph st) (cgraph st')) \<and>
   (\<forall>v w st st'. v \<in> set (nodeIds (cgraph st)) \<longrightarrow> placeLoop n lay opts v w st = Inr st' \<longrightarrow>
        onlyX (cgraph st) (cgraph st'))"
proof (induction n)
  case 0
  show ?case by simp
next
  case (Suc n)
  from Suc.IH have IHb: "\<And>v st st'. placeBlock n lay opts v st = Inr st' \<Longrightarrow> onlyX (cgraph st) (cgraph st')"
    and IHl: "\<And>v w st st'. v \<in> set (nodeIds (cgraph st)) \<Longrightarrow> placeLoop n lay opts v w st = Inr st' \<Longrightarrow>
        onlyX (cgraph st) (cgraph st')"
    by blast+
  have b: "onlyX (cgraph st) (cgraph st')" if p: "placeBlock (Suc n) lay opts v st = Inr st'" for v st st'
  proof (cases "getNode (cgraph st) v")
    case None
    with p show ?thesis by simp
  next
    case (Some vLabel)
    then have vin: "v \<in> set (nodeIds (cgraph st))" and vl: "vLabel = labels (cgraph st) v"
      by (simp_all add: getNode_Some)
    show ?thesis
    proof (cases "lx vLabel \<noteq> None")
      case True
      with Some p have "st' = st" by simp
      then show ?thesis by (simp add: onlyX_refl)
    next
      case False
      let ?st0 = "st\<lparr>cgraph := setNode (cgraph st) v (vLabel\<lparr>lx := Some 0\<rparr>)\<rparr>"
      from False Some p have l: "placeLoop n lay opts v v ?st0 = Inr st'" by simp
      have "onlyX (cgraph st) (cgraph ?st0)" using onlyX_setX[OF vin] vl by simp
      moreover have "onlyX (cgraph ?st0) (cgraph st')"
        by (rule IHl[OF _ l]) (simp add: vin)
      ultimately show ?thesis by (rule onlyX_trans)
    qed
  qed
  have l: "onlyX (cgraph st) (cgraph st')"
    if vin: "v \<in> set (nodeIds (cgraph st))" and p: "placeLoop (Suc n) lay opts v w st = Inr st'"
    for v w st st'
  proof -
    from p obtain st2 where
      body: "(case leftBlock (cgraph st) lay w of
              Inl e \<Rightarrow> Inl e
            | Inr None \<Rightarrow> Inr st
            | Inr (Some u) \<Rightarrow>
                (case placeBlock n lay opts u st of
                   Inl e \<Rightarrow> Inl e
                 | Inr st1 \<Rightarrow> constrain opts v w u st1)) = Inr st2"
      and rest: "(case align (cgraph st2) w of
             Inl e \<Rightarrow> Inl e
           | Inr w' \<Rightarrow> if w' \<noteq> v then placeLoop n lay opts v w' st2 else Inr st2) = Inr st'"
      by (simp split: sum.splits)
    have f2: "onlyX (cgraph st) (cgraph st2)"
    proof (cases "leftBlock (cgraph st) lay w")
      case (Inl e)
      with body show ?thesis by simp
    next
      case (Inr uo)
      show ?thesis
      proof (cases uo)
        case None
        with Inr body show ?thesis by (simp add: onlyX_refl)
      next
        case (Some u)
        with Inr body obtain st1 where p1: "placeBlock n lay opts u st = Inr st1"
          and c: "constrain opts v w u st1 = Inr st2"
          by (simp split: sum.splits)
        from IHb[OF p1] have f1: "onlyX (cgraph st) (cgraph st1)" .
        with vin have "v \<in> set (nodeIds (cgraph st1))" by (simp add: onlyX_nodeIds)
        from constrain_frame[OF c this] f1 show ?thesis by (blast intro: onlyX_trans)
      qed
    qed
    with vin have vin2: "v \<in> set (nodeIds (cgraph st2))" by (simp add: onlyX_nodeIds)
    show ?thesis
    proof (cases "align (cgraph st2) w")
      case (Inl e)
      with rest show ?thesis by simp
    next
      case (Inr w')
      show ?thesis
      proof (cases "w' \<noteq> v")
        case True
        with Inr rest have "placeLoop n lay opts v w' st2 = Inr st'" by simp
        from IHl[OF vin2 this] f2 show ?thesis by (blast intro: onlyX_trans)
      next
        case False
        with Inr rest f2 show ?thesis by simp
      qed
    qed
  qed
  from b l show ?case by blast
qed

lemma placeRoot_frame:
  assumes "placeRoot fuel lay opts v st = Inr st'"
  shows "onlyX (cgraph st) (cgraph st')"
  using assms place_frame[of fuel lay opts] onlyX_refl
  by (auto simp add: placeRoot_def split: if_splits)

lemma applyShift_frame:
  assumes "applyShift v st = Inr st'"
  shows "onlyX (cgraph st) (cgraph st')"
proof (cases "getNode (cgraph st) v")
  case None
  with assms show ?thesis by (simp add: applyShift_def)
next
  case (Some label)
  then have vin: "v \<in> set (nodeIds (cgraph st))" and vl: "label = labels (cgraph st) v"
    by (simp_all add: getNode_Some)
  from assms Some have "\<exists>a. cgraph st' = setNode (cgraph st) v (label\<lparr>lx := a\<rparr>)"
    by (auto simp add: applyShift_def Let_def split: sum.splits option.splits)
  then show ?thesis using onlyX_setX[OF vin] vl by auto
qed

lemma each_frame:
  assumes "each f xs st = Inr st'"
    and "\<And>a t t'. f a t = Inr t' \<Longrightarrow> onlyX (cgraph t) (cgraph t')"
  shows "onlyX (cgraph st) (cgraph st')"
  using assms(1)
proof (induction xs arbitrary: st)
  case Nil
  then show ?case by (simp add: onlyX_refl)
next
  case (Cons a xs)
  from Cons.prems obtain t where t: "f a st = Inr t" and r: "each f xs t = Inr st'"
    by (auto split: sum.splits)
  from assms(2)[OF t] Cons.IH[OF r] show ?case by (rule onlyX_trans)
qed

lemma compact_frame:
  assumes "compact fuel g lay opts = Inr g'"
  shows "onlyX g g'"
proof -
  let ?st = "\<lparr>cgraph = g, shift = (\<lambda>v. None), sink = (\<lambda>v. v)\<rparr>"
  from assms obtain st1 st2 where
    e1: "each (placeRoot fuel lay opts) (nodeIds g) ?st = Inr st1"
    and e2: "each applyShift (nodeIds g) st1 = Inr st2" and g': "g' = cgraph st2"
    by (auto simp add: compact_def Let_def split: sum.splits)
  have "onlyX (cgraph ?st) (cgraph st1)"
    by (rule each_frame[OF e1]) (rule placeRoot_frame)
  moreover have "onlyX (cgraph st1) (cgraph st2)"
    by (rule each_frame[OF e2]) (rule applyShift_frame)
  ultimately have "onlyX (cgraph ?st) (cgraph st2)" by (rule onlyX_trans)
  with g' show ?thesis by simp
qed

lemma clearX_fold:
  "nodeIds (fold (\<lambda>v h. setNode h v ((labels h v)\<lparr>lx := None\<rparr>)) ns g) = nodeIds g \<and>
   predecessors (fold (\<lambda>v h. setNode h v ((labels h v)\<lparr>lx := None\<rparr>)) ns g) = predecessors g \<and>
   (\<forall>n. labels (fold (\<lambda>v h. setNode h v ((labels h v)\<lparr>lx := None\<rparr>)) ns g) n =
      (if n \<in> set ns then (labels g n)\<lparr>lx := None\<rparr> else labels g n))"
proof (induction ns arbitrary: g)
  case Nil
  show ?case by simp
next
  case (Cons a ns)
  show ?case
    by (simp add: Cons.IH[of "setNode g a ((labels g a)\<lparr>lx := None\<rparr>)"]) (simp add: labels_setNode)
qed

lemma clearX_onlyX:
  assumes "onlyX g g'" and "\<forall>v\<in>set (nodeIds g). lx (labels g v) = None"
  shows "clearX g' = g"
proof (rule graph.equality)
  show "nodeIds (clearX g') = nodeIds g"
    using assms(1) by (simp add: clearX_def clearX_fold onlyX_def)
  show "predecessors (clearX g') = predecessors g"
    using assms(1) by (simp add: clearX_def clearX_fold onlyX_def)
  show "labels (clearX g') = labels g"
  proof
    fix n
    from assms(1) obtain a where a: "labels g' n = (labels g n)\<lparr>lx := a\<rparr>"
      unfolding onlyX_def by blast
    show "labels (clearX g') n = labels g n"
    proof (cases "n \<in> set (nodeIds g)")
      case True
      with assms(2) have "lx (labels g n) = None" by simp
      then have "(labels g n)\<lparr>lx := None\<rparr> = labels g n" by simp
      with True a assms(1) show ?thesis by (simp add: clearX_def clearX_fold onlyX_def)
    next
      case False
      with assms(1) show ?thesis by (simp add: clearX_def clearX_fold onlyX_def)
    qed
  qed
  show "graph.more (clearX g') = graph.more g" by simp
qed

lemma defaults_idem: "defaults (defaults opts) = defaults opts"
  by (simp add: defaults_def split: option.splits)

lemma horizontalCompaction_again:
  "snd (horizontalCompaction fuel g lay (fst (horizontalCompaction fuel g lay options))) =
   snd (horizontalCompaction fuel g lay options)"
  by (cases options) (simp_all add: horizontalCompaction_def defaults_idem)

text \<open>
  C8. Compaction is idempotent relative to the block structure: when a run of
  \<^verbatim>\<open>horizontalCompaction\<close> on a graph whose \<^verbatim>\<open>x\<close> fields are undefined (as the data
  model has them before compaction) returns, clearing every \<^verbatim>\<open>x\<close> and running again
  with the same layering and the same options (the caller's object after the first run,
  or an equal fresh one) returns the same graph, so every node gets the same coordinate.
\<close>

theorem compaction_idempotent:
  assumes "\<forall>v\<in>set (nodeIds g). lx (labels g v) = None"
    and "snd (horizontalCompaction fuel g layering options) = Inr g'"
  shows "snd (horizontalCompaction fuel (clearX g') layering
               (fst (horizontalCompaction fuel g layering options))) = Inr g' \<and>
         snd (horizontalCompaction fuel (clearX g') layering options) = Inr g'"
proof -
  from assms(2) have "onlyX g g'"
    by (cases options) (auto simp add: horizontalCompaction_def intro: compact_frame)
  from clearX_onlyX[OF this assms(1)] have "clearX g' = g" .
  with assms(2) show ?thesis by (simp add: horizontalCompaction_again)
qed

lemma overlap_compacted_run:
  "snd (horizontalCompaction 10 overlapAligned overlapLayering (None :: options option)) =
     Inr overlapCompacted"
proof -
  have "\<not> isl (snd (horizontalCompaction 10 overlapAligned overlapLayering (None :: options option)))"
    by code_simp
  then show ?thesis unfolding overlapCompacted_def by simp
qed

lemma overlap_aligned_fresh: "\<forall>v\<in>set (nodeIds overlapAligned). lx (labels overlapAligned v) = None"
  by code_simp

text \<open>Witness for C8: the two-layer blocks, compacted twice.\<close>

theorem compaction_idempotent_witness:
  "snd (horizontalCompaction 10 overlapAligned overlapLayering (None :: options option)) =
     Inr overlapCompacted \<and>
   snd (horizontalCompaction 10 (clearX overlapCompacted) overlapLayering (None :: options option)) =
     Inr overlapCompacted"
  using compaction_idempotent [OF overlap_aligned_fresh overlap_compacted_run]
    overlap_aligned_fresh overlap_compacted_run
  by simp

subsection \<open>Chains of aligned nodes\<close>

lemma chainOk_nth_root: "chainOk g c \<Longrightarrow> j < length c \<Longrightarrow> rootOf g (c ! j) = hd c"
  by (simp add: chainOk_def)

lemma chainOk_align_nth:
  assumes "chainOk g c" and "j < length c"
  shows "alignOf g (c ! j) = c ! (Suc j mod length c)"
proof (cases "Suc j < length c")
  case True
  with assms(1) show ?thesis by (simp add: chainOk_def)
next
  case False
  with assms(2) have j: "Suc j = length c" by simp
  then have "j = length c - 1" by simp
  then have "c ! j = last c" using assms(1) by (simp add: chainOk_def last_conv_nth)
  moreover have "hd c = c ! 0" using assms(1) by (simp add: chainOk_def hd_conv_nth)
  ultimately show ?thesis using assms(1) j by (simp add: chainOk_def)
qed

lemma chainOk_funpow:
  assumes "chainOk g c" and "j < length c"
  shows "(alignOf g ^^ k) (c ! j) = c ! ((j + k) mod length c)"
proof (induction k)
  case 0
  from assms(2) show ?case by simp
next
  case (Suc k)
  from assms(2) have "0 < length c" by linarith
  then have lt: "(j + k) mod length c < length c" by (rule mod_less_divisor)
  have "(alignOf g ^^ Suc k) (c ! j) = alignOf g (c ! ((j + k) mod length c))"
    by (simp add: Suc.IH)
  also have "\<dots> = c ! (Suc ((j + k) mod length c) mod length c)"
    by (rule chainOk_align_nth[OF assms(1) lt])
  also have "Suc ((j + k) mod length c) mod length c = (j + Suc k) mod length c"
    by (simp add: mod_Suc_eq)
  finally show ?case .
qed

lemma chainOk_singleton:
  assumes "chainOk g c" and "v \<in> set c" and "alignOf g v = v"
  shows "c = [v]"
proof -
  from assms(2) obtain j where j: "j < length c" and v: "c ! j = v"
    by (auto simp add: in_set_conv_nth)
  from assms(1) have d: "distinct c" by (simp add: chainOk_def)
  from chainOk_align_nth[OF assms(1) j] assms(3) v
  have "c ! (Suc j mod length c) = c ! j" by simp
  moreover from j have m: "Suc j mod length c < length c"
    by (intro mod_less_divisor) linarith
  ultimately have "Suc j mod length c = j" using d j by (simp add: nth_eq_iff_index_eq)
  with j have "length c = 1"
    by (metis Suc_lessI mod_less mod_self n_not_Suc_n One_nat_def less_Suc0 not_less_eq)
  with v j show ?thesis by (cases c) auto
qed

lemma chainOk_tail_last:
  assumes "chainOk g c" and "w \<in> set c" and "tailNode g w"
  shows "w = last c"
proof -
  from assms(2) obtain j where j: "j < length c" and w: "c ! j = w"
    by (auto simp add: in_set_conv_nth)
  from assms(1) have d: "distinct c" and ne: "c \<noteq> []" by (simp_all add: chainOk_def)
  have "rootOf g w = c ! 0" using chainOk_nth_root[OF assms(1) j] w ne by (simp add: hd_conv_nth)
  with chainOk_align_nth[OF assms(1) j] assms(3) w
  have "c ! (Suc j mod length c) = c ! 0" by (simp add: tailNode_def)
  moreover from j have m: "Suc j mod length c < length c"
    by (intro mod_less_divisor) linarith
  moreover from j have "0 < length c" by linarith
  ultimately have "Suc j mod length c = 0" using d by (simp add: nth_eq_iff_index_eq)
  with j have "Suc j = length c"
    by (metis Suc_lessI mod_less nat.distinct(1))
  then have "j = length c - 1" by simp
  with w ne show ?thesis by (simp add: last_conv_nth)
qed

lemma chainOk_unchanged:
  assumes "chainOk g d"
    and "\<forall>x\<in>set d. rootOf g' x = rootOf g x \<and> alignOf g' x = alignOf g x"
  shows "chainOk g' d"
proof -
  from assms(1) have ne: "d \<noteq> []" by (simp add: chainOk_def)
  then have l: "last d \<in> set d" by simp
  have n: "\<And>j. Suc j < length d \<Longrightarrow> d ! j \<in> set d" by simp
  from assms l n show ?thesis unfolding chainOk_def by simp
qed

lemma chainOk_snoc:
  assumes c: "chainOk g c" and v: "v \<notin> set c"
    and r: "\<forall>n. rootOf g' n = (if n = v then hd c else rootOf g n)"
    and a: "\<forall>n. alignOf g' n = (if n = v then hd c else if n = last c then v else alignOf g n)"
  shows "chainOk g' (c @ [v])"
proof -
  from c have ne: "c \<noteq> []" and d: "distinct c" by (simp_all add: chainOk_def)
  have roots: "\<forall>x\<in>set (c @ [v]). rootOf g' x = hd (c @ [v])"
    using c r ne by (auto simp add: chainOk_def)
  have links: "\<forall>j. Suc j < length (c @ [v]) \<longrightarrow> alignOf g' ((c @ [v]) ! j) = (c @ [v]) ! Suc j"
  proof (intro allI impI)
    fix j assume "Suc j < length (c @ [v])"
    then have j: "j < length c" by simp
    then have cj: "(c @ [v]) ! j = c ! j" by (simp add: nth_append)
    from j v have nv: "c ! j \<noteq> v" by (metis nth_mem)
    show "alignOf g' ((c @ [v]) ! j) = (c @ [v]) ! Suc j"
    proof (cases "Suc j < length c")
      case True
      then have "c ! j \<noteq> last c"
        using d ne j by (simp add: last_conv_nth nth_eq_iff_index_eq)
      with a nv have "alignOf g' (c ! j) = alignOf g (c ! j)" by simp
      also from c True have "\<dots> = c ! Suc j" by (simp add: chainOk_def)
      finally show ?thesis using cj True by (simp add: nth_append)
    next
      case False
      with j have e: "Suc j = length c" by simp
      then have "j = length c - 1" by simp
      then have "c ! j = last c" using ne by (simp add: last_conv_nth)
      with a nv have "alignOf g' (c ! j) = v" by simp
      then show ?thesis using cj e by (simp add: nth_append)
    qed
  qed
  have "alignOf g' (last (c @ [v])) = hd (c @ [v])" using a ne by simp
  with roots links d v show ?thesis unfolding chainOk_def by simp
qed

lemma merge_blocksOk:
  assumes b: "blocksOk g C" and vin: "v \<in> set (nodeIds g)" and win: "w \<in> set (nodeIds g)"
    and vw: "v \<noteq> w" and av: "alignOf g v = v" and tw: "tailNode g w"
    and ids: "nodeIds g' = nodeIds g"
    and r: "\<forall>n. rootOf g' n = (if n = v then rootOf g w else rootOf g n)"
    and a: "\<forall>n. alignOf g' n = (if n = v then rootOf g w else if n = w then v else alignOf g n)"
  shows "\<exists>C'. blocksOk g' C'"
proof -
  from b vin obtain cv where cv: "cv \<in> C" "v \<in> set cv" unfolding blocksOk_def by blast
  from b win obtain cw where cw: "cw \<in> C" "w \<in> set cw" unfolding blocksOk_def by blast
  from b cv cw have okv: "chainOk g cv" and okw: "chainOk g cw" unfolding blocksOk_def by blast+
  from chainOk_singleton[OF okv cv(2) av] have cv1: "cv = [v]" .
  from chainOk_tail_last[OF okw cw(2) tw] have wl: "w = last cw" .
  from cw(2) vw cv1 have ne: "cw \<noteq> cv" by auto
  with b cv cw have "set cw \<inter> set cv = {}" unfolding blocksOk_def by blast
  with cv1 have vcw: "v \<notin> set cw" by simp
  from okw cw(2) have rw: "rootOf g w = hd cw" by (simp add: chainOk_def)
  have new: "chainOk g' (cw @ [v])"
    by (rule chainOk_snoc[OF okw vcw]) (use r a rw wl in simp_all)
  let ?C = "insert (cw @ [v]) (C - {cw, cv})"
  have old: "chainOk g' d" if d: "d \<in> C - {cw, cv}" for d
  proof (rule chainOk_unchanged)
    from b d show "chainOk g d" unfolding blocksOk_def by blast
    from b d cv cw have "set d \<inter> set cv = {}" "set d \<inter> set cw = {}"
      unfolding blocksOk_def by blast+
    with cv cw have "v \<notin> set d" "w \<notin> set d" by blast+
    with r a show "\<forall>x\<in>set d. rootOf g' x = rootOf g x \<and> alignOf g' x = alignOf g x" by auto
  qed
  have disj: "set d \<inter> set (cw @ [v]) = {}" if d: "d \<in> C - {cw, cv}" for d
  proof -
    from b d cv cw have "set d \<inter> set cv = {}" "set d \<inter> set cw = {}"
      unfolding blocksOk_def by blast+
    with cv1 show ?thesis by auto
  qed
  have chains: "\<forall>c\<in>?C. chainOk g' c" using new old by blast
  have disjoint: "\<forall>c\<in>?C. \<forall>d\<in>?C. c \<noteq> d \<longrightarrow> set c \<inter> set d = {}"
  proof (intro ballI impI)
    fix c d assume c: "c \<in> ?C" and d: "d \<in> ?C" and cd: "c \<noteq> d"
    consider "c = cw @ [v]" "d \<in> C - {cw, cv}" | "d = cw @ [v]" "c \<in> C - {cw, cv}"
      | "c \<in> C - {cw, cv}" "d \<in> C - {cw, cv}"
      using c d cd by blast
    then show "set c \<inter> set d = {}"
    proof cases
      case 1
      with disj[of d] show ?thesis by blast
    next
      case 2
      with disj[of c] show ?thesis by blast
    next
      case 3
      with b cd show ?thesis unfolding blocksOk_def by blast
    qed
  qed
  have "(\<Union>c\<in>?C. set c) = (\<Union>c\<in>C. set c)"
  proof
    show "(\<Union>c\<in>?C. set c) \<subseteq> (\<Union>c\<in>C. set c)"
    proof
      fix x assume "x \<in> (\<Union>c\<in>?C. set c)"
      then obtain c where c: "c \<in> ?C" "x \<in> set c" by blast
      show "x \<in> (\<Union>c\<in>C. set c)"
      proof (cases "c = cw @ [v]")
        case True
        with c have "x \<in> set cw \<or> x \<in> set cv" using cv(2) by auto
        with cv(1) cw(1) show ?thesis by blast
      next
        case False
        with c show ?thesis by blast
      qed
    qed
    show "(\<Union>c\<in>C. set c) \<subseteq> (\<Union>c\<in>?C. set c)"
    proof
      fix x assume "x \<in> (\<Union>c\<in>C. set c)"
      then obtain c where c: "c \<in> C" "x \<in> set c" by blast
      show "x \<in> (\<Union>c\<in>?C. set c)"
      proof (cases "c = cw \<or> c = cv")
        case True
        with c cv1 have "x \<in> set (cw @ [v])" by auto
        then show ?thesis by blast
      next
        case False
        with c show ?thesis by blast
      qed
    qed
  qed
  with b ids have cover: "(\<Union>c\<in>?C. set c) = set (nodeIds g')" by (simp add: blocksOk_def)
  from chains disjoint cover have "blocksOk g' ?C" unfolding blocksOk_def by blast
  then show ?thesis ..
qed

subsection \<open>The invariant of vertical alignment\<close>

lemma each_total:
  assumes "P s"
    and "\<And>a t. a \<in> set xs \<Longrightarrow> P t \<Longrightarrow> \<exists>t'. f a t = Inr t' \<and> P t'"
  shows "\<exists>s'. each f xs s = Inr s' \<and> P s'"
  using assms
proof (induction xs arbitrary: s)
  case Nil
  then show ?case by simp
next
  case (Cons a xs)
  from Cons.prems(2)[of a s] Cons.prems(1) obtain t where t: "f a s = Inr t" "P t" by auto
  have "\<And>b u. b \<in> set xs \<Longrightarrow> P u \<Longrightarrow> \<exists>u'. f b u = Inr u' \<and> P u'"
    using Cons.prems(2) by (meson list.set_intros(2))
  from Cons.IH[OF t(2) this] obtain s' where "each f xs t = Inr s'" "P s'" by blast
  with t show ?case by simp
qed

lemma alignCandidate_total:
  assumes "v \<in> set (nodeIds (agraph st))" and "w \<in> set (nodeIds (agraph st))"
  shows "\<exists>st'. alignCandidate c v w st = Inr st'"
  using assms by (simp add: alignCandidate_def getNode_def Let_def)

lemma alignCandidate_layerInv:
  assumes inv: "layerInv ids P R st" and v: "v \<in> R" and w: "w \<in> P"
    and disj: "P \<inter> R = {}" and sub: "P \<union> R \<subseteq> set ids"
  shows "\<exists>st'. alignCandidate c v w st = Inr st' \<and> layerInv ids P R st'"
proof -
  let ?g = "agraph st"
  from inv have ids: "nodeIds ?g = ids" by (simp add: layerInv_def)
  with v w sub have vin: "v \<in> set (nodeIds ?g)" and win: "w \<in> set (nodeIds ?g)" by auto
  from alignCandidate_total[OF vin win] obtain st' where st': "alignCandidate c v w st = Inr st'"
    by blast
  from v w disj have vw: "v \<noteq> w" by blast
  have "layerInv ids P R st'"
    using alignCandidate_cases[OF st']
  proof
    assume "st' = st" with inv show ?thesis by simp
  next
    assume m: "v \<in> set (nodeIds (agraph st)) \<and> w \<in> set (nodeIds (agraph st)) \<and>
      alignOf (agraph st) v = v \<and> cur_prevIdx st < order (labels (agraph st) w) \<and>
      \<not> hasType1Conflict c v w \<and>
      cur_prevIdx st' = order (labels (agraph st) w) \<and>
      nodeIds (agraph st') = nodeIds (agraph st) \<and>
      predecessors (agraph st') = predecessors (agraph st) \<and>
      (\<forall>n. labels (agraph st') n =
         (if n = v then (labels (agraph st) v)\<lparr>lroot := rootOf (agraph st) w, lalign := rootOf (agraph st) w\<rparr>
          else if n = w then (labels (agraph st) w)\<lparr>lalign := v\<rparr>
          else labels (agraph st) n))"
    let ?g' = "agraph st'"
    from m have lab: "\<And>n. labels ?g' n =
         (if n = v then (labels ?g v)\<lparr>lroot := rootOf ?g w, lalign := rootOf ?g w\<rparr>
          else if n = w then (labels ?g w)\<lparr>lalign := v\<rparr>
          else labels ?g n)" by blast
    have r: "\<forall>n. rootOf ?g' n = (if n = v then rootOf ?g w else rootOf ?g n)"
      by (simp add: rootOf_def lab)
    have a: "\<forall>n. alignOf ?g' n = (if n = v then rootOf ?g w else if n = w then v else alignOf ?g n)"
      by (simp add: alignOf_def lab)
    have o: "\<And>n. order (labels ?g' n) = order (labels ?g n)"
      by (simp add: lab)
    from m have ids': "nodeIds ?g' = nodeIds ?g" and av: "alignOf ?g v = v"
      and lt: "cur_prevIdx st < order (labels ?g w)"
      and p': "cur_prevIdx st' = order (labels ?g w)" by simp_all
    from inv w lt have tw: "tailNode ?g w" by (auto simp add: layerInv_def)
    from inv obtain C where C: "blocksOk ?g C" by (auto simp add: layerInv_def)
    from merge_blocksOk[OF C vin win vw av tw ids' r a] have b': "\<exists>C'. blocksOk ?g' C'" .
    have tR: "\<forall>n\<in>R. tailNode ?g' n"
    proof
      fix n assume n: "n \<in> R"
      show "tailNode ?g' n"
      proof (cases "n = v")
        case True
        with r a show ?thesis by (simp add: tailNode_def)
      next
        case False
        from n w disj have "n \<noteq> w" by blast
        with False r a have "rootOf ?g' n = rootOf ?g n" "alignOf ?g' n = alignOf ?g n" by simp_all
        with inv n show ?thesis by (simp add: layerInv_def tailNode_def)
      qed
    qed
    have tP: "\<forall>n\<in>P. tailNode ?g' n \<or> order (labels ?g' n) \<le> cur_prevIdx st'"
    proof
      fix n assume n: "n \<in> P"
      show "tailNode ?g' n \<or> order (labels ?g' n) \<le> cur_prevIdx st'"
      proof (cases "n = w")
        case True
        with o p' show ?thesis by simp
      next
        case False
        from n v disj have nv: "n \<noteq> v" by blast
        with False r a have e: "rootOf ?g' n = rootOf ?g n" "alignOf ?g' n = alignOf ?g n" by simp_all
        from inv n have "tailNode ?g n \<or> order (labels ?g n) \<le> cur_prevIdx st"
          by (simp add: layerInv_def)
        then show ?thesis
        proof
          assume "tailNode ?g n" with e show ?thesis by (simp add: tailNode_def)
        next
          assume "order (labels ?g n) \<le> cur_prevIdx st"
          with lt p' o show ?thesis by simp
        qed
      qed
    qed
    from ids ids' b' tR tP show ?thesis by (simp add: layerInv_def)
  qed
  with st' show ?thesis by blast
qed

lemma medians_subset:
  assumes "ws \<noteq> []"
  shows "set (medians ws) \<subseteq> set ws"
proof
  fix x assume "x \<in> set (medians ws)"
  then have "x \<in> (\<lambda>i. ws ! i) ` set [(length ws - 1) div 2 ..< Suc (length ws div 2)]"
    by (simp only: medians_def set_map)
  then obtain i where "i \<in> set [(length ws - 1) div 2 ..< Suc (length ws div 2)]" and x: "x = ws ! i"
    by blast
  then have i: "i < Suc (length ws div 2)" by (simp only: set_upt atLeastLessThan_iff)
  from assms have "0 < length ws" by simp
  then have "length ws div 2 < length ws" by simp
  with i have "i < length ws" by simp
  with x show "x \<in> set ws" by simp
qed

lemma alignNode_layerInv:
  assumes inv: "layerInv ids P R st" and v: "v \<in> R" and nb: "set (nf v) \<subseteq> P"
    and disj: "P \<inter> R = {}" and sub: "P \<union> R \<subseteq> set ids"
  shows "\<exists>st'. alignNode c nf v st = Inr st' \<and> layerInv ids P R st'"
proof (cases "nf v = []")
  case True
  with inv show ?thesis by (simp add: alignNode_def)
next
  case False
  have "\<exists>st'. each (alignCandidate c v) (medians (nf v)) st = Inr st' \<and> layerInv ids P R st'"
  proof (rule each_total[where P = "layerInv ids P R", OF inv])
    fix a t assume a: "a \<in> set (medians (nf v))" and t: "layerInv ids P R t"
    from a medians_subset[OF False] nb have "a \<in> P" by blast
    from alignCandidate_layerInv[OF t v this disj sub]
    show "\<exists>t'. alignCandidate c v a t = Inr t' \<and> layerInv ids P R t'" .
  qed
  with False show ?thesis by (simp add: alignNode_def)
qed

lemma alignLayer_ok:
  assumes ids: "nodeIds g = ids" and b: "\<exists>C. blocksOk g C"
    and t: "\<forall>n\<in>P \<union> R. tailNode g n" and l: "set layer \<subseteq> R"
    and nb: "\<forall>v\<in>set layer. set (nf v) \<subseteq> P"
    and disj: "P \<inter> R = {}" and sub: "P \<union> R \<subseteq> set ids"
  shows "\<exists>g'. alignLayer c nf layer g = Inr g' \<and> nodeIds g' = ids \<and> (\<exists>C. blocksOk g' C) \<and>
           (\<forall>n\<in>R. tailNode g' n)"
proof -
  let ?st = "\<lparr>agraph = g, cur_prevIdx = - 1\<rparr>"
  have i0: "layerInv ids P R ?st" using ids b t by (simp add: layerInv_def)
  have "\<exists>st'. each (alignNode c nf) layer ?st = Inr st' \<and> layerInv ids P R st'"
  proof (rule each_total[where P = "layerInv ids P R", OF i0])
    fix a s assume a: "a \<in> set layer" and s: "layerInv ids P R s"
    from a l have aR: "a \<in> R" by blast
    from a nb have "set (nf a) \<subseteq> P" by blast
    from alignNode_layerInv[where nf = nf and v = a, OF s aR this disj sub]
    show "\<exists>t'. alignNode c nf a s = Inr t' \<and> layerInv ids P R t'" .
  qed
  then obtain st' where e: "each (alignNode c nf) layer ?st = Inr st'" and i: "layerInv ids P R st'"
    by blast
  from e have "alignLayer c nf layer g = Inr (agraph st')" by (simp add: alignLayer_def)
  with i show ?thesis by (simp add: layerInv_def)
qed

lemma alignLayers_ok:
  assumes "neighborsIn nf P ls" and "distinct (concat ls)" and "P \<inter> set (concat ls) = {}"
    and "P \<union> set (concat ls) \<subseteq> set (nodeIds g)" and "\<exists>C. blocksOk g C"
    and "\<forall>n\<in>P \<union> set (concat ls). tailNode g n"
  shows "\<exists>g'. each (alignLayer c nf) ls g = Inr g' \<and> nodeIds g' = nodeIds g \<and>
           (\<exists>C. blocksOk g' C)"
  using assms
proof (induction ls arbitrary: P g)
  case Nil
  then show ?case by simp
next
  case (Cons l ls)
  let ?R = "set (concat (l # ls))"
  have "\<exists>g'. alignLayer c nf l g = Inr g' \<and> nodeIds g' = nodeIds g \<and> (\<exists>C. blocksOk g' C) \<and>
           (\<forall>n\<in>?R. tailNode g' n)"
  proof (rule alignLayer_ok[where P = P])
    show "nodeIds g = nodeIds g" by simp
    show "\<exists>C. blocksOk g C" by fact
    show "\<forall>n\<in>P \<union> ?R. tailNode g n" using Cons.prems(6) by simp
    show "set l \<subseteq> ?R" by auto
    show "\<forall>v\<in>set l. set (nf v) \<subseteq> P" using Cons.prems(1) by simp
    show "P \<inter> ?R = {}" using Cons.prems(3) by simp
    show "P \<union> ?R \<subseteq> set (nodeIds g)" using Cons.prems(4) by simp
  qed
  then obtain g1 where g1: "alignLayer c nf l g = Inr g1" "nodeIds g1 = nodeIds g"
    "\<exists>C. blocksOk g1 C" "\<forall>n\<in>?R. tailNode g1 n" by blast
  have "\<exists>g'. each (alignLayer c nf) ls g1 = Inr g' \<and> nodeIds g' = nodeIds g1 \<and> (\<exists>C. blocksOk g' C)"
  proof (rule Cons.IH[where P = "set l"])
    show "neighborsIn nf (set l) ls" using Cons.prems(1) by simp
    show "distinct (concat ls)" using Cons.prems(2) by simp
    show "set l \<inter> set (concat ls) = {}" using Cons.prems(2) by auto
    show "set l \<union> set (concat ls) \<subseteq> set (nodeIds g1)" using Cons.prems(4) g1(2) by auto
    show "\<exists>C. blocksOk g1 C" by fact
    show "\<forall>n\<in>set l \<union> set (concat ls). tailNode g1 n" using g1(4) by auto
  qed
  with g1 show ?case by auto
qed

lemma blocksOk_initBlocks: "blocksOk (initBlocks g) ((\<lambda>n. [n]) ` set (nodeIds g))"
  unfolding blocksOk_def
proof (intro conjI)
  show "\<forall>c\<in>(\<lambda>n. [n]) ` set (nodeIds g). chainOk (initBlocks g) c"
    by (auto simp add: chainOk_def rootOf_def alignOf_def labels_initBlocks)
  show "\<forall>c\<in>(\<lambda>n. [n]) ` set (nodeIds g). \<forall>d\<in>(\<lambda>n. [n]) ` set (nodeIds g).
          c \<noteq> d \<longrightarrow> set c \<inter> set d = {}"
    by auto
  show "(\<Union>c\<in>(\<lambda>n. [n]) ` set (nodeIds g). set c) = set (nodeIds (initBlocks g))"
    by auto
qed

lemma tailNode_initBlocks: "n \<in> set (nodeIds g) \<Longrightarrow> tailNode (initBlocks g) n"
  by (simp add: tailNode_def rootOf_def alignOf_def labels_initBlocks)

lemma neighborsIn_index:
  assumes "\<forall>i<length ls. \<forall>v\<in>set (ls ! i). set (nf v) \<subseteq> (if i = 0 then P else set (ls ! (i - 1)))"
  shows "neighborsIn nf P ls"
  using assms
proof (induction ls arbitrary: P)
  case Nil
  show ?case by simp
next
  case (Cons l ls)
  have "0 < length (l # ls)" by simp
  from Cons.prems[rule_format, OF this] have h: "\<forall>v\<in>set l. set (nf v) \<subseteq> P" by simp
  have "\<forall>i<length ls. \<forall>v\<in>set (ls ! i). set (nf v) \<subseteq> (if i = 0 then set l else set (ls ! (i - 1)))"
  proof (intro allI impI ballI)
    fix i v assume i: "i < length ls" and v: "v \<in> set (ls ! i)"
    from i have "Suc i < length (l # ls)" by simp
    from Cons.prems[rule_format, OF this, of v] v
    have "set (nf v) \<subseteq> set ((l # ls) ! i)" by simp
    then show "set (nf v) \<subseteq> (if i = 0 then set l else set (ls ! (i - 1)))"
      by (cases i) simp_all
  qed
  from Cons.IH[OF this] h show ?case by simp
qed

lemma verticalAlignment_blocksOk:
  assumes "distinct (concat layering)" and "set (concat layering) \<subseteq> set (nodeIds g)"
    and "\<forall>i<length layering. \<forall>v\<in>set (layering ! i). \<forall>w\<in>set (neighborFn v).
           0 < i \<and> w \<in> set (layering ! (i - 1))"
  shows "\<exists>g'. verticalAlignment g layering conflicts neighborFn = Inr g' \<and>
           nodeIds g' = nodeIds g \<and> (\<exists>C. blocksOk g' C)"
proof -
  have nb: "neighborsIn neighborFn {} layering"
  proof (rule neighborsIn_index, intro allI impI ballI)
    fix i v assume "i < length layering" "v \<in> set (layering ! i)"
    with assms(3) have "\<forall>w\<in>set (neighborFn v). 0 < i \<and> w \<in> set (layering ! (i - 1))" by blast
    then show "set (neighborFn v) \<subseteq> (if i = 0 then {} else set (layering ! (i - 1)))" by auto
  qed
  have "\<exists>g'. each (alignLayer conflicts neighborFn) layering (initBlocks g) = Inr g' \<and>
          nodeIds g' = nodeIds (initBlocks g) \<and> (\<exists>C. blocksOk g' C)"
  proof (rule alignLayers_ok[where P = "{}"])
    show "neighborsIn neighborFn {} layering" by fact
    show "distinct (concat layering)" by fact
    show "{} \<inter> set (concat layering) = {}" by simp
    show "{} \<union> set (concat layering) \<subseteq> set (nodeIds (initBlocks g))" using assms(2) by simp
    show "\<exists>C. blocksOk (initBlocks g) C" using blocksOk_initBlocks by blast
    show "\<forall>n\<in>{} \<union> set (concat layering). tailNode (initBlocks g) n"
      using assms(2) tailNode_initBlocks by auto
  qed
  then show ?thesis by (simp add: verticalAlignment_def)
qed

subsection \<open>Blocks are cycles\<close>

lemma block_eq_chain:
  assumes b: "blocksOk g C" and c: "c \<in> C" and v: "v \<in> set c"
  shows "block g v = set c"
proof -
  from b c have ok: "chainOk g c" by (simp add: blocksOk_def)
  then have ne: "c \<noteq> []" and rv: "rootOf g v = hd c" using v by (simp_all add: chainOk_def)
  show ?thesis
  proof
    show "block g v \<subseteq> set c"
    proof
      fix u assume "u \<in> block g v"
      then have uin: "u \<in> set (nodeIds g)" and ru: "rootOf g u = hd c"
        by (simp_all add: block_def rv)
      from b uin obtain d where d: "d \<in> C" "u \<in> set d" unfolding blocksOk_def by blast
      with b have okd: "chainOk g d" by (simp add: blocksOk_def)
      with d ru have "hd d = hd c" and "d \<noteq> []" by (simp_all add: chainOk_def)
      with ne have "hd c \<in> set c \<inter> set d" by (metis IntI hd_in_set)
      with b c d have "d = c" unfolding blocksOk_def by blast
      with d show "u \<in> set c" by simp
    qed
    show "set c \<subseteq> block g v"
    proof
      fix u assume u: "u \<in> set c"
      with b c have "u \<in> set (nodeIds g)" unfolding blocksOk_def by blast
      moreover from ok u have "rootOf g u = hd c" by (simp add: chainOk_def)
      ultimately show "u \<in> block g v" by (simp add: block_def rv)
    qed
  qed
qed

lemma blocksOk_cycle:
  assumes b: "blocksOk g C" and vin: "v \<in> set (nodeIds g)"
  shows "(alignOf g ^^ card (block g v)) v = v \<and>
         (\<forall>k. 0 < k \<and> k < card (block g v) \<longrightarrow> (alignOf g ^^ k) v \<noteq> v) \<and>
         (\<lambda>k. (alignOf g ^^ k) v) ` {..<card (block g v)} = block g v \<and>
         (\<forall>k. rootOf g ((alignOf g ^^ k) v) = rootOf g v) \<and>
         (\<exists>k<card (block g v). (alignOf g ^^ k) v = rootOf g v) \<and>
         rootOf g (rootOf g v) = rootOf g v \<and>
         (card (block g v) = 1 \<longrightarrow> rootOf g v = v \<and> alignOf g v = v)"
proof -
  from b vin obtain c where c: "c \<in> C" "v \<in> set c" unfolding blocksOk_def by blast
  with b have ok: "chainOk g c" by (simp add: blocksOk_def)
  then have ne: "c \<noteq> []" and d: "distinct c" by (simp_all add: chainOk_def)
  from c(2) obtain j where j: "j < length c" and vj: "c ! j = v"
    by (auto simp add: in_set_conv_nth)
  let ?n = "length c"
  from ne have n0: "0 < ?n" by simp
  have blk: "block g v = set c" by (rule block_eq_chain[OF b c])
  with d have card: "card (block g v) = ?n" by (simp add: distinct_card)
  have pow: "\<And>k. (alignOf g ^^ k) v = c ! ((j + k) mod ?n)"
    using chainOk_funpow[OF ok j] vj by simp
  have lt: "\<And>k. (j + k) mod ?n < ?n" using n0 by simp
  have rv: "rootOf g v = hd c" using ok c(2) by (simp add: chainOk_def)
  have hd0: "hd c = c ! 0" using ne by (simp add: hd_conv_nth)
  have p1: "(alignOf g ^^ ?n) v = v" using pow[of ?n] j vj by simp
  have p2: "\<forall>k. 0 < k \<and> k < ?n \<longrightarrow> (alignOf g ^^ k) v \<noteq> v"
  proof (intro allI impI)
    fix k assume k: "0 < k \<and> k < ?n"
    have "(j + k) mod ?n \<noteq> j"
    proof (cases "j + k < ?n")
      case True
      then have "(j + k) mod ?n = j + k" by simp
      with k show ?thesis by simp
    next
      case False
      then have "?n \<le> j + k" by simp
      then have "(j + k) mod ?n = (j + k - ?n) mod ?n" by (rule le_mod_geq)
      moreover from j k have "j + k - ?n < ?n" by linarith
      ultimately have "(j + k) mod ?n = j + k - ?n" by simp
      with k False show ?thesis by linarith
    qed
    with d lt[of k] j have "c ! ((j + k) mod ?n) \<noteq> c ! j" by (simp add: nth_eq_iff_index_eq)
    with pow[of k] vj show "(alignOf g ^^ k) v \<noteq> v" by simp
  qed
  have p3: "(\<lambda>k. (alignOf g ^^ k) v) ` {..<?n} = set c"
  proof
    show "(\<lambda>k. (alignOf g ^^ k) v) ` {..<?n} \<subseteq> set c"
      using pow lt by (auto simp add: nth_mem)
    show "set c \<subseteq> (\<lambda>k. (alignOf g ^^ k) v) ` {..<?n}"
    proof
      fix u assume "u \<in> set c"
      then obtain i where i: "i < ?n" and ui: "c ! i = u" by (auto simp add: in_set_conv_nth)
      let ?k = "(i + ?n - j) mod ?n"
      have "(j + ?k) mod ?n = (j + (i + ?n - j)) mod ?n" by (simp add: mod_add_right_eq)
      also from j have "j + (i + ?n - j) = i + ?n" by simp
      also have "(i + ?n) mod ?n = i" using i by simp
      finally have "(alignOf g ^^ ?k) v = u" using pow[of ?k] ui by simp
      moreover have "?k < ?n" using n0 by simp
      ultimately show "u \<in> (\<lambda>k. (alignOf g ^^ k) v) ` {..<?n}" by blast
    qed
  qed
  have p4: "\<forall>k. rootOf g ((alignOf g ^^ k) v) = rootOf g v"
    using pow lt chainOk_nth_root[OF ok] rv by simp
  have p5: "\<exists>k<?n. (alignOf g ^^ k) v = rootOf g v"
  proof -
    let ?k = "(?n - j) mod ?n"
    have "(j + ?k) mod ?n = (j + (?n - j)) mod ?n" by (simp add: mod_add_right_eq)
    also from j have "j + (?n - j) = ?n" by simp
    finally have "(j + ?k) mod ?n = 0" by simp
    with pow[of ?k] rv hd0 have "(alignOf g ^^ ?k) v = rootOf g v" by simp
    moreover have "?k < ?n" using n0 by simp
    ultimately show ?thesis by blast
  qed
  have p6: "rootOf g (rootOf g v) = rootOf g v"
    using chainOk_nth_root[OF ok n0] rv hd0 by simp
  have p7: "?n = 1 \<longrightarrow> rootOf g v = v \<and> alignOf g v = v"
  proof
    assume one: "?n = 1"
    with j have "j = 0" by simp
    with vj hd0 rv have r: "rootOf g v = v" by simp
    from chainOk_align_nth[OF ok j] one vj \<open>j = 0\<close> have "alignOf g v = v" by simp
    with r show "rootOf g v = v \<and> alignOf g v = v" by simp
  qed
  from d have card': "card (set c) = ?n" by (rule distinct_card)
  show ?thesis
    unfolding blk card'
    by (intro conjI) (fact p1, fact p2, fact p3, fact p4, fact p5, fact p6, fact p7)
qed

text \<open>
  C2. On a layering that names every node at most once and only nodes of the graph, with
  a neighbour function whose values lie in the layer before the node's layer (the input
  the aligner is specified for: every edge spans one rank), \<^verbatim>\<open>verticalAlignment\<close>
  returns, and in the graph it returns the \<^verbatim>\<open>align\<close> links partition the nodes into
  disjoint cycles: following \<^verbatim>\<open>align\<close> from a node returns to it after exactly as many
  steps as its block has members and not before, the nodes passed are exactly the block,
  they all have the root of the node, that root is on the cycle and is its own root, and
  a node whose block has no other member has \<^verbatim>\<open>root = align = self\<close>.
\<close>

theorem alignment_cycles:
  assumes "distinct (concat layering)" and "set (concat layering) \<subseteq> set (nodeIds g)"
    and "\<forall>i<length layering. \<forall>v\<in>set (layering ! i). \<forall>w\<in>set (neighborFn v).
           0 < i \<and> w \<in> set (layering ! (i - 1))"
  shows "\<exists>g'. verticalAlignment g layering conflicts neighborFn = Inr g' \<and>
           nodeIds g' = nodeIds g \<and>
           (\<forall>v\<in>set (nodeIds g).
              (alignOf g' ^^ card (block g' v)) v = v \<and>
              (\<forall>k. 0 < k \<and> k < card (block g' v) \<longrightarrow> (alignOf g' ^^ k) v \<noteq> v) \<and>
              (\<lambda>k. (alignOf g' ^^ k) v) ` {..<card (block g' v)} = block g' v \<and>
              (\<forall>k. rootOf g' ((alignOf g' ^^ k) v) = rootOf g' v) \<and>
              (\<exists>k<card (block g' v). (alignOf g' ^^ k) v = rootOf g' v) \<and>
              rootOf g' (rootOf g' v) = rootOf g' v \<and>
              (card (block g' v) = 1 \<longrightarrow> rootOf g' v = v \<and> alignOf g' v = v))"
proof -
  from verticalAlignment_blocksOk[OF assms] obtain g' C where
    g': "verticalAlignment g layering conflicts neighborFn = Inr g'" "nodeIds g' = nodeIds g"
    and C: "blocksOk g' C"
    by blast
  have cyc: "\<forall>v\<in>set (nodeIds g).
              (alignOf g' ^^ card (block g' v)) v = v \<and>
              (\<forall>k. 0 < k \<and> k < card (block g' v) \<longrightarrow> (alignOf g' ^^ k) v \<noteq> v) \<and>
              (\<lambda>k. (alignOf g' ^^ k) v) ` {..<card (block g' v)} = block g' v \<and>
              (\<forall>k. rootOf g' ((alignOf g' ^^ k) v) = rootOf g' v) \<and>
              (\<exists>k<card (block g' v). (alignOf g' ^^ k) v = rootOf g' v) \<and>
              rootOf g' (rootOf g' v) = rootOf g' v \<and>
              (card (block g' v) = 1 \<longrightarrow> rootOf g' v = v \<and> alignOf g' v = v)"
  proof
    fix v assume "v \<in> set (nodeIds g)"
    with g'(2) have "v \<in> set (nodeIds g')" by simp
    from blocksOk_cycle[OF C this]
    show "(alignOf g' ^^ card (block g' v)) v = v \<and>
              (\<forall>k. 0 < k \<and> k < card (block g' v) \<longrightarrow> (alignOf g' ^^ k) v \<noteq> v) \<and>
              (\<lambda>k. (alignOf g' ^^ k) v) ` {..<card (block g' v)} = block g' v \<and>
              (\<forall>k. rootOf g' ((alignOf g' ^^ k) v) = rootOf g' v) \<and>
              (\<exists>k<card (block g' v). (alignOf g' ^^ k) v = rootOf g' v) \<and>
              rootOf g' (rootOf g' v) = rootOf g' v \<and>
              (card (block g' v) = 1 \<longrightarrow> rootOf g' v = v \<and> alignOf g' v = v)" .
  qed
  show ?thesis
    by (rule exI[of _ g'], rule conjI[OF g'(1)], rule conjI[OF g'(2)], rule cyc)
qed

lemma overlap_distinct: "distinct (concat overlapLayering)"
  by code_simp

lemma overlap_nodes: "set (concat overlapLayering) \<subseteq> set (nodeIds overlapGraph)"
  by code_simp

lemma overlap_neighbors:
  "\<forall>i<length overlapLayering. \<forall>v\<in>set (overlapLayering ! i).
     \<forall>w\<in>set (predecessors overlapGraph v). 0 < i \<and> w \<in> set (overlapLayering ! (i - 1))"
  by code_simp

text \<open>Witness for C2: the two-layer blocks, at the node \<open>e\<close>.\<close>

theorem alignment_cycles_witness:
  "distinct (concat overlapLayering) \<and>
   set (concat overlapLayering) \<subseteq> set (nodeIds overlapGraph) \<and>
   verticalAlignment overlapGraph overlapLayering Map.empty (predecessors overlapGraph) =
     Inr overlapAligned \<and>
   (alignOf overlapAligned ^^ card (block overlapAligned ''e'')) ''e'' = ''e'' \<and>
   (\<lambda>k. (alignOf overlapAligned ^^ k) ''e'') ` {..<card (block overlapAligned ''e'')} =
     block overlapAligned ''e'' \<and>
   rootOf overlapAligned (rootOf overlapAligned ''e'') = rootOf overlapAligned ''e''"
proof -
  from alignment_cycles [OF overlap_distinct overlap_nodes overlap_neighbors, of Map.empty]
  obtain g' where g': "verticalAlignment overlapGraph overlapLayering Map.empty (predecessors overlapGraph) = Inr g'"
    and cyc: "\<forall>v\<in>set (nodeIds overlapGraph).
              (alignOf g' ^^ card (block g' v)) v = v \<and>
              (\<forall>k. 0 < k \<and> k < card (block g' v) \<longrightarrow> (alignOf g' ^^ k) v \<noteq> v) \<and>
              (\<lambda>k. (alignOf g' ^^ k) v) ` {..<card (block g' v)} = block g' v \<and>
              (\<forall>k. rootOf g' ((alignOf g' ^^ k) v) = rootOf g' v) \<and>
              (\<exists>k<card (block g' v). (alignOf g' ^^ k) v = rootOf g' v) \<and>
              rootOf g' (rootOf g' v) = rootOf g' v \<and>
              (card (block g' v) = 1 \<longrightarrow> rootOf g' v = v \<and> alignOf g' v = v)"
    by blast
  from g' overlap_aligned have e: "g' = overlapAligned" by simp
  have "''e'' \<in> set (nodeIds overlapGraph)" by code_simp
  with cyc e have
    "(alignOf overlapAligned ^^ card (block overlapAligned ''e'')) ''e'' = ''e''"
    "(\<lambda>k. (alignOf overlapAligned ^^ k) ''e'') ` {..<card (block overlapAligned ''e'')} =
     block overlapAligned ''e''"
    "rootOf overlapAligned (rootOf overlapAligned ''e'') = rootOf overlapAligned ''e''"
    by blast+
  with overlap_distinct overlap_nodes overlap_neighbors overlap_aligned show ?thesis by blast
qed

end
